theory Spec2Isabelle
  imports Main "HOL-Library.Sublist" "HOL-Library.Code_Target_Nat"
begin

section \<open>JavaScript strings\<close>

text \<open>
  A JavaScript string is a sequence of UTF-16 code units. A code unit is modelled by its
  number, and a string by the list of its code units, so \<open>length\<close> is \<open>.length\<close> and
  \<open>take\<close> and \<open>drop\<close> are \<open>slice\<close>. The literal strings of the source are written
  \<open>js ''...''\<close>.
\<close>

type_synonym code_unit = nat
type_synonym jstring = "code_unit list"

definition js :: "string \<Rightarrow> jstring" where
  \<comment> \<open>the code units of a literal\<close>
  "js s = map of_char s"

abbreviation LF :: code_unit where "LF \<equiv> 0x0A"
abbreviation CR :: code_unit where "CR \<equiv> 0x0D"
abbreviation GT :: code_unit where "GT \<equiv> of_char (CHR ''>'')"
abbreviation DQ :: code_unit where "DQ \<equiv> of_char (CHR 0x22)"

definition is_space :: "code_unit \<Rightarrow> bool" where
  \<comment> \<open>WhiteSpace and LineTerminator of ECMAScript: TAB, LF, VT, FF, CR, SPACE, NO-BREAK
      SPACE, OGHAM SPACE MARK, EN QUAD to HAIR SPACE, LINE SEPARATOR, PARAGRAPH SEPARATOR,
      NARROW NO-BREAK SPACE, MEDIUM MATHEMATICAL SPACE, IDEOGRAPHIC SPACE and the BYTE ORDER
      MARK.\<close>
  "is_space c =
     (c = 0x09 \<or> c = 0x0A \<or> c = 0x0B \<or> c = 0x0C \<or> c = 0x0D \<or> c = 0x20 \<or> c = 0xA0
      \<or> c = 0x1680 \<or> (0x2000 \<le> c \<and> c \<le> 0x200A) \<or> c = 0x2028 \<or> c = 0x2029
      \<or> c = 0x202F \<or> c = 0x205F \<or> c = 0x3000 \<or> c = 0xFEFF)"

definition trim :: "jstring \<Rightarrow> jstring" where
  \<comment> \<open>\<open>String.prototype.trim\<close>\<close>
  "trim s = rev (dropWhile is_space (rev (dropWhile is_space s)))"

fun starts_with :: "jstring \<Rightarrow> jstring \<Rightarrow> bool" where
  \<comment> \<open>\<open>String.prototype.startsWith\<close>\<close>
  "starts_with s [] = True"
| "starts_with [] (p # ps) = False"
| "starts_with (c # s) (p # ps) = (c = p \<and> starts_with s ps)"

fun str_includes :: "jstring \<Rightarrow> jstring \<Rightarrow> bool" where
  \<comment> \<open>\<open>String.prototype.includes\<close>\<close>
  "str_includes [] p = (p = [])"
| "str_includes (c # s) p = (starts_with (c # s) p \<or> str_includes s p)"

definition slice_last :: "nat \<Rightarrow> 'a list \<Rightarrow> 'a list" where
  \<comment> \<open>\<open>x.slice(-n)\<close> for \<open>n > 0\<close>, on strings and on arrays: the start index
      \<open>length - n\<close> is clamped at 0.\<close>
  "slice_last n xs = drop (length xs - n) xs"

fun join :: "jstring \<Rightarrow> jstring list \<Rightarrow> jstring" where
  \<comment> \<open>\<open>Array.prototype.join\<close>\<close>
  "join sep [] = []"
| "join sep [x] = x"
| "join sep (x # y # ys) = x @ sep @ join sep (y # ys)"

definition digit_char :: "nat \<Rightarrow> code_unit" where
  \<comment> \<open>the digits 0 to 9 are the code units 0x30 to 0x39\<close>
  "digit_char d = 48 + d"

fun show_nat :: "nat \<Rightarrow> jstring" where
  \<comment> \<open>decimal rendering of a non-negative integer in a template literal\<close>
  "show_nat n = (if n < 10 then [digit_char n] else show_nat (n div 10) @ [digit_char (n mod 10)])"

declare show_nat.simps [simp del]

definition show_int :: "int \<Rightarrow> jstring" where
  \<comment> \<open>decimal rendering of an integer in a template literal\<close>
  "show_int i = (if i < 0 then js ''-'' @ show_nat (nat (- i)) else show_nat (nat i))"

section \<open>Regular expressions\<close>

text \<open>
  The regular expressions of the source are sequences of single-character atoms, each
  with a quantifier, some of them inside a capture group. A character class is one of
  the four kinds the source uses. None of the patterns has the \<open>u\<close> or the \<open>i\<close> flag,
  so they work on code units.
\<close>

datatype cclass =
    Exactly code_unit    \<comment> \<open>a literal character\<close>
  | Except code_unit     \<comment> \<open>\<open>[^c]\<close>\<close>
  | Digit                \<comment> \<open>\<open>\d\<close>, that is \<open>[0-9]\<close>\<close>
  | AnyChar              \<comment> \<open>\<open>[\s\S]\<close>\<close>

datatype quant =
    Once            \<comment> \<open>no quantifier\<close>
  | Plus            \<comment> \<open>\<open>+\<close>, greedy\<close>
  | Star            \<comment> \<open>\<open>*\<close>, greedy\<close>
  | LazyStar        \<comment> \<open>\<open>*?\<close>\<close>
  | Opt             \<comment> \<open>\<open>?\<close>, greedy\<close>

datatype piece =
    P cclass quant      \<comment> \<open>a quantified atom\<close>
  | Cap cclass quant    \<comment> \<open>a quantified atom that is the whole of a capture group\<close>

type_synonym regex = "piece list"

fun accepts :: "cclass \<Rightarrow> code_unit \<Rightarrow> bool" where
  "accepts (Exactly c) x = (x = c)"
| "accepts (Except c) x = (x \<noteq> c)"
| "accepts Digit x = (48 \<le> x \<and> x \<le> 57)"
| "accepts AnyChar x = True"

fun cls_of :: "piece \<Rightarrow> cclass" where
  "cls_of (P cl q) = cl"
| "cls_of (Cap cl q) = cl"

fun quant_of :: "piece \<Rightarrow> quant" where
  "quant_of (P cl q) = q"
| "quant_of (Cap cl q) = q"

fun is_cap :: "piece \<Rightarrow> bool" where
  "is_cap (P cl q) = False"
| "is_cap (Cap cl q) = True"

definition lit :: "jstring \<Rightarrow> regex" where
  \<comment> \<open>a run of literal characters\<close>
  "lit s = map (\<lambda>c. P (Exactly c) Once) s"

text \<open>
  The matcher is the backtracking matcher of ECMAScript, in continuation style: the
  continuation \<open>k\<close> is given the text the atom has taken and the input left, and matches
  the rest of the pattern. A greedy quantifier takes one more character first and comes
  back to the continuation when that fails; a lazy one tries the continuation first.
\<close>

fun greedy :: "cclass \<Rightarrow> (jstring \<Rightarrow> jstring \<Rightarrow> 'a option) \<Rightarrow> jstring \<Rightarrow> jstring \<Rightarrow> 'a option" where
  "greedy cl k acc [] = k acc []"
| "greedy cl k acc (x # s) =
     (if accepts cl x
      then (case greedy cl k (acc @ [x]) s of Some r \<Rightarrow> Some r | None \<Rightarrow> k acc (x # s))
      else k acc (x # s))"

fun lazy :: "cclass \<Rightarrow> (jstring \<Rightarrow> jstring \<Rightarrow> 'a option) \<Rightarrow> jstring \<Rightarrow> jstring \<Rightarrow> 'a option" where
  "lazy cl k acc [] = k acc []"
| "lazy cl k acc (x # s) =
     (case k acc (x # s) of
        Some r \<Rightarrow> Some r
      | None \<Rightarrow> if accepts cl x then lazy cl k (acc @ [x]) s else None)"

fun quantified ::
  "quant \<Rightarrow> cclass \<Rightarrow> (jstring \<Rightarrow> jstring \<Rightarrow> 'a option) \<Rightarrow> jstring \<Rightarrow> 'a option" where
  "quantified Once cl k [] = None"
| "quantified Once cl k (x # s) = (if accepts cl x then k [x] s else None)"
| "quantified Plus cl k [] = None"
| "quantified Plus cl k (x # s) = (if accepts cl x then greedy cl k [x] s else None)"
| "quantified Star cl k s = greedy cl k [] s"
| "quantified LazyStar cl k s = lazy cl k [] s"
| "quantified Opt cl k [] = k [] []"
| "quantified Opt cl k (x # s) =
     (if accepts cl x
      then (case k [x] s of Some r \<Rightarrow> Some r | None \<Rightarrow> k [] (x # s))
      else k [] (x # s))"

fun add_text :: "jstring \<Rightarrow> (jstring list \<times> jstring) option \<Rightarrow> (jstring list \<times> jstring) option" where
  "add_text t None = None"
| "add_text t (Some (ts, rest)) = Some (t # ts, rest)"

primrec match_here :: "regex \<Rightarrow> jstring \<Rightarrow> (jstring list \<times> jstring) option" where
  \<comment> \<open>Match the pattern at the start of the input: the text each atom of the pattern has
      taken, and the input left after the match.\<close>
  "match_here [] s = Some ([], s)"
| "match_here (p # ps) s =
     quantified (quant_of p) (cls_of p) (\<lambda>t rest. add_text t (match_here ps rest)) s"

fun captures :: "regex \<Rightarrow> jstring list \<Rightarrow> jstring list" where
  \<comment> \<open>the texts of the capture groups, in the order of the groups\<close>
  "captures (p # ps) (t # ts) = (if is_cap p then t # captures ps ts else captures ps ts)"
| "captures ps ts = []"

record rmatch =
  matched :: jstring         \<comment> \<open>element 0 of the match array\<close>
  groups :: "jstring list"   \<comment> \<open>elements 1, 2, ...\<close>
  after :: jstring           \<comment> \<open>the input after the match\<close>

definition exec_at :: "regex \<Rightarrow> jstring \<Rightarrow> rmatch option" where
  "exec_at re s =
     (case match_here re s of
        None \<Rightarrow> None
      | Some (ts, rest) \<Rightarrow>
          Some \<lparr>matched = concat ts, groups = captures re ts, after = rest\<rparr>)"

fun match_first :: "regex \<Rightarrow> jstring \<Rightarrow> rmatch option" where
  \<comment> \<open>\<open>s.match(re)\<close> without the \<open>g\<close> flag: the match at the leftmost position that
      has one, or null.\<close>
  "match_first re [] = exec_at re []"
| "match_first re (c # s) =
     (case exec_at re (c # s) of Some m \<Rightarrow> Some m | None \<Rightarrow> match_first re s)"

function match_all :: "regex \<Rightarrow> jstring \<Rightarrow> jstring list" where
  \<comment> \<open>\<open>s.match(re) || []\<close> with the \<open>g\<close> flag: the matched texts from left to right,
      each search starting where the previous match ended (one further on after an empty
      match).\<close>
  "match_all re s =
     (case exec_at re s of
        None \<Rightarrow> (case s of [] \<Rightarrow> [] | c # s' \<Rightarrow> match_all re s')
      | Some m \<Rightarrow>
          if length (after m) < length s then matched m # match_all re (after m)
          else (case s of [] \<Rightarrow> [matched m] | c # s' \<Rightarrow> matched m # match_all re s'))"
  by pat_completeness auto
termination
  by (relation "measure (\<lambda>(re, s). length s)") auto

declare match_all.simps [simp del]

definition at_index :: "'a list \<Rightarrow> nat \<Rightarrow> 'a option" where
  \<comment> \<open>\<open>a[i]\<close> on an array: undefined (None) outside the array\<close>
  "at_index xs i = (if i < length xs then Some (xs ! i) else None)"

definition group :: "rmatch \<Rightarrow> nat \<Rightarrow> jstring option" where
  \<comment> \<open>\<open>m[i]\<close> for \<open>i \<ge> 1\<close> on a match array\<close>
  "group m i = at_index (groups m) (i - 1)"

definition tpl :: "jstring option \<Rightarrow> jstring" where
  \<comment> \<open>a possibly undefined jstring inside a template literal\<close>
  "tpl v = (case v of None \<Rightarrow> js ''undefined'' | Some s \<Rightarrow> s)"

function split_from :: "regex \<Rightarrow> jstring \<Rightarrow> jstring \<Rightarrow> jstring list" where
  \<comment> \<open>The loop of \<open>String.prototype.split\<close> with a regular expression separator:
      \<open>cur\<close> is the text between the last separator and the current position. A match
      that ends where the last separator ended does not split.\<close>
  "split_from re cur s =
     (case s of
        [] \<Rightarrow> [cur]
      | c # s' \<Rightarrow>
          (case match_here re s of
             None \<Rightarrow> split_from re (cur @ [c]) s'
           | Some (ts, rest) \<Rightarrow>
               if length rest < length s then cur # captures re ts @ split_from re [] rest
               else if cur = [] then split_from re [c] s'
               else cur # captures re ts @ split_from re [c] s'))"
  by pat_completeness auto
termination
  by (relation "measure (\<lambda>(re, cur, s). length s)") auto

declare split_from.simps [simp del]

definition split_re :: "regex \<Rightarrow> jstring \<Rightarrow> jstring list" where
  \<comment> \<open>\<open>s.split(re)\<close>\<close>
  "split_re re s =
     (if s = [] then (case match_here re [] of None \<Rightarrow> [[]] | Some _ \<Rightarrow> [])
      else split_from re [] s)"

section \<open>The patterns of runUnityTests\<close>

definition header_re :: regex where
  \<comment> \<open>\<^verbatim>\<open>/<test-run [^>]+>/\<close>\<close>
  "header_re = lit (js ''<test-run '') @ [P (Except GT) Plus] @ lit (js ''>'')"

definition total_re :: regex where
  \<comment> \<open>\<^verbatim>\<open>/<test-run[^>]+total="(\d+)"[^>]+failed="(\d+)"/\<close>\<close>
  \<open>total_re =
     lit (js ''<test-run'') @ [P (Except GT) Plus] @ lit (js ''total="'') @ [Cap Digit Plus]
     @ lit (js ''"'') @ [P (Except GT) Plus] @ lit (js ''failed="'') @ [Cap Digit Plus]
     @ lit (js ''"'')\<close>

definition failed_case_re :: regex where
  \<comment> \<open>\<^verbatim>\<open>/<test-case[^>]*result="Failed"[^>]*>/g\<close>\<close>
  \<open>failed_case_re =
     lit (js ''<test-case'') @ [P (Except GT) Star] @ lit (js ''result="Failed"'')
     @ [P (Except GT) Star] @ lit (js ''>'')\<close>

definition name_re :: regex where
  \<comment> \<open>\<^verbatim>\<open>/name="([^"]*)"/\<close>\<close>
  \<open>name_re = lit (js ''name="'') @ [Cap (Except DQ) Star] @ lit (js ''"'')\<close>

definition failure_re :: regex where
  \<comment> \<open>\<^verbatim>\<open>/<failure>[\s\S]*?<\/failure>/g\<close>\<close>
  "failure_re = lit (js ''<failure>'') @ [P AnyChar LazyStar] @ lit (js ''</failure>'')"

definition message_re :: regex where
  \<comment> \<open>\<^verbatim>\<open>/<message><!\[CDATA\[([\s\S]*?)\]\]><\/message>/\<close>\<close>
  "message_re =
     lit (js ''<message><![CDATA['') @ [Cap AnyChar LazyStar] @ lit (js '']]></message>'')"

definition stack_re :: regex where
  \<comment> \<open>\<^verbatim>\<open>/<stack-trace><!\[CDATA\[([\s\S]*?)\]\]><\/stack-trace>/\<close>\<close>
  "stack_re =
     lit (js ''<stack-trace><![CDATA['') @ [Cap AnyChar LazyStar]
     @ lit (js '']]></stack-trace>'')"

definition newline_re :: regex where
  \<comment> \<open>\<^verbatim>\<open>/\r?\n/\<close>\<close>
  "newline_re = [P (Exactly CR) Opt, P (Exactly LF) Once]"

section \<open>runUnityTests\<close>

datatype js_error = JsError jstring   \<comment> \<open>a thrown value, with its \<open>String(e)\<close> rendering\<close>

fun String_of :: "js_error \<Rightarrow> jstring" where
  "String_of (JsError d) = d"

type_synonym filesystem = "jstring \<Rightarrow> js_error + jstring"
  \<comment> \<open>\<open>fs.readFile(path, "utf8")\<close>: the text of the file, or the error thrown\<close>

definition header_text :: "jstring \<Rightarrow> jstring" where
  "header_text xml =
     (case match_first header_re xml of
        None \<Rightarrow> []
      | Some header \<Rightarrow> matched header @ js ''\<newline>'')"

definition totals_text :: "jstring \<Rightarrow> jstring" where
  "totals_text xml =
     (case match_first total_re xml of
        None \<Rightarrow> []
      | Some totalMatch \<Rightarrow>
          js ''Total: '' @ tpl (group totalMatch 1) @ js '', Failed: ''
          @ tpl (group totalMatch 2) @ js ''\<newline>'')"

definition name_line :: "jstring \<Rightarrow> jstring" where
  \<comment> \<open>the body of the loop over the failed cases\<close>
  "name_line line =
     (case match_first name_re line of
        None \<Rightarrow> []
      | Some name \<Rightarrow> js ''  - '' @ tpl (group name 1) @ js ''\<newline>'')"

definition failed_cases_text :: "jstring \<Rightarrow> jstring" where
  "failed_cases_text xml =
     (let failedCases = match_all failed_case_re xml in
      if length failedCases > 0
      then js ''Failed cases ('' @ show_nat (length failedCases) @ js ''):\<newline>''
           @ concat (map name_line failedCases)
      else [])"

definition generic_message :: jstring where
  "generic_message = js ''One or more child tests had errors''"

definition trim_of :: "jstring option \<Rightarrow> js_error + jstring" where
  \<comment> \<open>\<open>v.trim()\<close>: a TypeError on undefined\<close>
  "trim_of v =
     (case v of
        None \<Rightarrow>
          Inl (JsError (js ''TypeError: Cannot read properties of undefined (reading 'trim')''))
      | Some s \<Rightarrow> Inr (trim s))"

fun failure_loop :: "jstring list \<Rightarrow> jstring \<times> js_error option" where
  \<comment> \<open>The loop over the failure blocks: the text appended, and the error thrown if any.\<close>
  "failure_loop [] = ([], None)"
| "failure_loop (f # fs) =
     (let msg = match_first message_re f;
          stack = match_first stack_re f
      in case msg of
           None \<Rightarrow> failure_loop fs
         | Some m \<Rightarrow>
             (case trim_of (group m 1) of
                Inl e \<Rightarrow> ([], Some e)
              | Inr t \<Rightarrow>
                  if t \<noteq> [] \<and> t \<noteq> generic_message
                  then (case stack of
                          None \<Rightarrow> (js ''\<newline>Failure message: '' @ t @ js ''\<newline>'', None)
                        | Some st \<Rightarrow>
                            (case trim_of (group st 1) of
                               Inl e \<Rightarrow> (js ''\<newline>Failure message: '' @ t @ js ''\<newline>'', Some e)
                             | Inr u \<Rightarrow>
                                 (js ''\<newline>Failure message: '' @ t @ js ''\<newline>''
                                  @ js ''Stack: '' @ u @ js ''\<newline>'', None)))
                  else failure_loop fs))"

definition failure_text :: "jstring \<Rightarrow> jstring \<times> js_error option" where
  "failure_text xml = failure_loop (match_all failure_re xml)"

definition try_results :: "filesystem \<Rightarrow> jstring \<Rightarrow> jstring \<times> js_error option" where
  \<comment> \<open>The body of the first try block: the text appended to the summary until the block
      ends or throws, and the error thrown if any.\<close>
  "try_results fs resultsPath =
     (case fs resultsPath of
        Inl e \<Rightarrow> ([], Some e)
      | Inr xml \<Rightarrow>
          (case failure_text xml of
             (t, thrown) \<Rightarrow>
               (header_text xml @ totals_text xml @ failed_cases_text xml @ t, thrown)))"

definition no_results_notice :: jstring where
  "no_results_notice = js ''No results.xml found or failed to parse.\<newline>''"

definition results_section :: "filesystem \<Rightarrow> jstring \<Rightarrow> jstring" where
  \<comment> \<open>the first try block with its catch\<close>
  "results_section fs resultsPath =
     (case try_results fs resultsPath of
        (t, None) \<Rightarrow> t
      | (t, Some e) \<Rightarrow> t @ no_results_notice)"

definition footer :: "jstring \<Rightarrow> int \<Rightarrow> jstring" where
  "footer logPath exitCode =
     js ''\<newline>Log: '' @ logPath @ js ''\<newline>Exit code: '' @ show_int exitCode"

definition tail :: "jstring \<Rightarrow> jstring" where
  \<comment> \<open>\<open>tail(text)\<close> with the default \<open>max = 1000\<close>\<close>
  "tail text = (if length text > 1000 then slice_last 1000 text else text)"

definition tail_section :: "jstring \<Rightarrow> jstring \<Rightarrow> jstring" where
  \<comment> \<open>the section of one captured stream; \<open>label\<close> is \<open>stdout\<close> or \<open>stderr\<close>\<close>
  "tail_section label buf =
     (if trim buf \<noteq> []
      then js ''\<newline>\<newline>['' @ label @ js '' tail]\<newline>'' @ tail buf
      else [])"

definition try_log :: "(jstring \<Rightarrow> jstring) \<Rightarrow> filesystem \<Rightarrow> jstring \<Rightarrow> js_error + jstring" where
  \<comment> \<open>The body of the second try block. \<open>toLowerCase\<close> is \<open>String.prototype.toLowerCase\<close>:
      the case mapping of Unicode is a table of the runtime, not of this repository, and is
      taken as a parameter.\<close>
  "try_log toLowerCase fs logPath =
     (case fs logPath of
        Inl e \<Rightarrow> Inl e
      | Inr logText \<Rightarrow>
          (let lines = split_re newline_re logText;
               errorLines = filter (\<lambda>line. str_includes (toLowerCase line) (js ''error'')) lines
           in if length errorLines > 0
              then (let tailErrors =
                          (if length errorLines > 200 then slice_last 200 errorLines
                           else errorLines)
                    in Inr (js ''\<newline>\<newline>[log grep -i 'error' ('' @ show_nat (length tailErrors)
                            @ js ''/'' @ show_nat (length errorLines) @ js '' matches)]\<newline>''
                            @ join (js ''\<newline>'') tailErrors))
              else Inr (js ''\<newline>\<newline>[log grep -i 'error']\<newline>No 'error' lines found.'')))"

definition log_section ::
  "(jstring \<Rightarrow> jstring) \<Rightarrow> filesystem \<Rightarrow> jstring \<Rightarrow> int \<Rightarrow> jstring" where
  \<comment> \<open>the second try block with its catch, under \<open>if (exitCode !== 0)\<close>\<close>
  "log_section toLowerCase fs logPath exitCode =
     (if exitCode \<noteq> 0
      then (case try_log toLowerCase fs logPath of
              Inr t \<Rightarrow> t
            | Inl e \<Rightarrow>
                js ''\<newline>\<newline>[log grep -i 'error']\<newline>Failed to read log file: '' @ String_of e)
      else [])"

record proc_close =
  code :: "int option"    \<comment> \<open>the argument of the close event, None for null\<close>
  stdoutBuf :: jstring
  stderrBuf :: jstring

definition exit_code_of :: "int option \<Rightarrow> int" where
  \<comment> \<open>\<open>code ?? 0\<close>\<close>
  "exit_code_of c = (case c of None \<Rightarrow> 0 | Some n \<Rightarrow> n)"

definition summarize ::
  "(jstring \<Rightarrow> jstring) \<Rightarrow> filesystem \<Rightarrow> jstring \<Rightarrow> jstring \<Rightarrow> proc_close
   \<Rightarrow> js_error + (jstring \<times> int)" where
  \<comment> \<open>runUnityTests from the close event of the child process to its return\<close>
  "summarize toLowerCase fs resultsPath logPath pc =
     (let exitCode = exit_code_of (code pc);
          summary = results_section fs resultsPath;
          summary = summary @ footer logPath exitCode;
          summary = summary @ tail_section (js ''stdout'') (stdoutBuf pc);
          summary = summary @ tail_section (js ''stderr'') (stderrBuf pc);
          summary = summary @ log_section toLowerCase fs logPath exitCode
      in Inr (summary, exitCode))"

datatype platform = EditMode | PlayMode

fun platform_name :: "platform \<Rightarrow> jstring" where
  "platform_name EditMode = js ''EditMode''"
| "platform_name PlayMode = js ''PlayMode''"

record params =
  filter_param :: "jstring option"       \<comment> \<open>\<open>filter\<close>\<close>
  platform_param :: "platform option"    \<comment> \<open>\<open>platform\<close>\<close>

definition unity_args ::
  "jstring \<Rightarrow> platform \<Rightarrow> jstring \<Rightarrow> jstring \<Rightarrow> params \<Rightarrow> jstring list" where
  "unity_args unityProjectPath pl resultsPath logPath ps =
     [js ''--burst-force-sync-compilation'', js ''-burst-force-sync-compilation'',
      js ''-runTests'', js ''-batchmode'', js ''-projectPath'', unityProjectPath,
      js ''-testPlatform'', platform_name pl, js ''-testResults'', resultsPath,
      js ''-logFile'', logPath]
     @ (case filter_param ps of
          None \<Rightarrow> []
        | Some f \<Rightarrow> if f \<noteq> [] \<and> length (trim f) > 0 then [js ''-testFilter'', f] else [])"

definition missing_editor :: js_error where
  "missing_editor =
     JsError (js ''Error: Missing Unity editor path. Provide via --unity-editor or UNITY_EDITOR_PATH.'')"

definition missing_project :: js_error where
  "missing_project =
     JsError (js ''Error: Missing Unity project path. Provide via --project or UNITY_PROJECT_PATH.'')"

definition runUnityTests ::
  "(jstring \<Rightarrow> jstring) \<Rightarrow> (jstring \<Rightarrow> jstring \<Rightarrow> jstring)
   \<Rightarrow> (jstring \<Rightarrow> jstring list \<Rightarrow> proc_close \<times> filesystem)
   \<Rightarrow> jstring option \<Rightarrow> jstring option \<Rightarrow> params \<Rightarrow> js_error + (jstring \<times> int)" where
  \<comment> \<open>\<open>path_resolve\<close> is \<open>path.resolve\<close>. \<open>spawn\<close> is the run of the editor up to its
      close event: what the event and the two pipes delivered, and the files as they are
      read afterwards. The two optional paths are the values of
      \<open>resolveUnityEditorPath()\<close> and \<open>resolveUnityProjectPath()\<close>, None for undefined;
      an empty string is falsy as well.\<close>
  "runUnityTests toLowerCase path_resolve spawn unityEditorPath unityProjectPath ps =
     (case unityEditorPath of
        None \<Rightarrow> Inl missing_editor
      | Some editor \<Rightarrow>
          if editor = [] then Inl missing_editor
          else
            (case unityProjectPath of
               None \<Rightarrow> Inl missing_project
             | Some project \<Rightarrow>
                 if project = [] then Inl missing_project
                 else
                   (let pl = (case platform_param ps of None \<Rightarrow> EditMode | Some p \<Rightarrow> p);
                        resultsPath = path_resolve project (js ''results.xml'');
                        logPath = path_resolve project (js ''batch.log'');
                        args = unity_args project pl resultsPath logPath ps
                    in case spawn editor args of
                         (pc, fs) \<Rightarrow> summarize toLowerCase fs resultsPath logPath pc)))"

record tool_response =
  content_text :: jstring    \<comment> \<open>the text of the one content item\<close>
  isError :: bool

definition run_unity_tests_tool ::
  "(jstring \<Rightarrow> jstring) \<Rightarrow> (jstring \<Rightarrow> jstring \<Rightarrow> jstring)
   \<Rightarrow> (jstring \<Rightarrow> jstring list \<Rightarrow> proc_close \<times> filesystem)
   \<Rightarrow> jstring option \<Rightarrow> jstring option \<Rightarrow> params \<Rightarrow> js_error + tool_response" where
  \<comment> \<open>The handler registered as \<open>run_unity_tests\<close>, on arguments that have passed its
      schema: \<open>filter\<close> is a string or absent, \<open>platform\<close> is \<open>EditMode\<close>, \<open>PlayMode\<close> or
      absent, and an absent \<open>platform\<close> is given the default \<open>EditMode\<close>.\<close>
  "run_unity_tests_tool toLowerCase path_resolve spawn unityEditorPath unityProjectPath ps =
     (let ps' = ps\<lparr>platform_param :=
                     (case platform_param ps of None \<Rightarrow> Some EditMode | Some p \<Rightarrow> Some p)\<rparr>
      in case runUnityTests toLowerCase path_resolve spawn unityEditorPath unityProjectPath ps' of
           Inl e \<Rightarrow> Inl e
         | Inr (summary, exitCode) \<Rightarrow> Inr \<lparr>content_text = summary, isError = (exitCode \<noteq> 0)\<rparr>)"

section \<open>Specification-level notions\<close>

text \<open>
  The definitions of this section are not part of the program: the theorems below state
  the behaviour of the program in their terms.
\<close>

definition fits :: "piece \<Rightarrow> jstring \<Rightarrow> bool" where
  \<comment> \<open>the language of one quantified atom: the texts it can take\<close>
  "fits p t =
     (list_all (accepts (cls_of p)) t \<and>
      (case quant_of p of
         Once \<Rightarrow> length t = 1
       | Plus \<Rightarrow> 1 \<le> length t
       | Star \<Rightarrow> True
       | LazyStar \<Rightarrow> True
       | Opt \<Rightarrow> length t \<le> 1))"

fun index_of :: "jstring \<Rightarrow> jstring \<Rightarrow> nat option" where
  \<comment> \<open>the position of the leftmost occurrence of \<open>p\<close> in a text, as \<open>indexOf\<close> gives it\<close>
  "index_of p [] = (if p = [] then Some 0 else None)"
| "index_of p (c # s) =
     (if starts_with (c # s) p then Some 0
      else (case index_of p s of None \<Rightarrow> None | Some i \<Rightarrow> Some (Suc i)))"

definition text_between :: "jstring \<Rightarrow> jstring \<Rightarrow> jstring \<Rightarrow> jstring option" where
  \<comment> \<open>the text between the first occurrence of \<open>opener\<close> and the nearest occurrence of
      \<open>closer\<close> after it, when there are both\<close>
  "text_between opener closer s =
     (case index_of opener s of
        None \<Rightarrow> None
      | Some i \<Rightarrow>
          (case index_of closer (drop (i + length opener) s) of
             None \<Rightarrow> None
           | Some j \<Rightarrow> Some (take j (drop (i + length opener) s))))"

definition enclosed_at :: "jstring \<Rightarrow> jstring \<Rightarrow> jstring \<Rightarrow> jstring option" where
  \<comment> \<open>the piece at the head of a text that starts with \<open>opener\<close> and ends with the nearest
      \<open>closer\<close> after it\<close>
  "enclosed_at opener closer s =
     (if prefix opener s
      then (case index_of closer (drop (length opener) s) of
              None \<Rightarrow> None
            | Some j \<Rightarrow> Some (opener @ take j (drop (length opener) s) @ closer))
      else None)"

function units :: "(jstring \<Rightarrow> jstring option) \<Rightarrow> jstring \<Rightarrow> jstring list" where
  \<comment> \<open>The pieces of a text found by a scan from left to right: \<open>at s\<close> is the piece that
      starts at the head of \<open>s\<close>, if one does; a piece found is taken and the scan goes on
      after it, otherwise the scan moves on by one character.\<close>
  "units at s =
     (case at s of
        None \<Rightarrow> (case s of [] \<Rightarrow> [] | c # s' \<Rightarrow> units at s')
      | Some t \<Rightarrow> (case s of [] \<Rightarrow> [t] | c # s' \<Rightarrow> t # units at (drop (length t - 1) s')))"
  by pat_completeness auto

termination
  by (relation "measure (\<lambda>(at, s). length s)") auto

declare units.simps [simp del]

definition reads_to :: "piece \<Rightarrow> jstring \<Rightarrow> bool" where
  \<comment> \<open>the atom followed by the literal \<open>C\<close> takes the text up to the nearest \<open>C\<close>\<close>
  "reads_to p C =
     (\<forall>s. match_here (p # lit C) s =
        (case index_of C s of
           None \<Rightarrow> None
         | Some j \<Rightarrow> Some (take j s # map (\<lambda>c. [c]) C, drop (j + length C) s)))"

definition failure_blocks :: "jstring \<Rightarrow> jstring list" where
  \<comment> \<open>The failure blocks of a results document, from left to right: a block starts with
      \<^verbatim>\<open><failure>\<close> and ends with the nearest \<^verbatim>\<open></failure>\<close> after it.\<close>
  "failure_blocks xml = units (enclosed_at (js ''<failure>'') (js ''</failure>'')) xml"

definition cdata_message :: "jstring \<Rightarrow> jstring option" where
  \<comment> \<open>the CDATA message of a failure block: the text between the first
      \<^verbatim>\<open><message><![CDATA[\<close> and the nearest \<^verbatim>\<open>]]></message>\<close> after it\<close>
  "cdata_message b = text_between (js ''<message><![CDATA['') (js '']]></message>'') b"

definition cdata_stack :: "jstring \<Rightarrow> jstring option" where
  \<comment> \<open>the CDATA stack trace of a failure block\<close>
  "cdata_stack b = text_between (js ''<stack-trace><![CDATA['') (js '']]></stack-trace>'') b"

definition is_meaningful :: "jstring \<Rightarrow> bool" where
  \<comment> \<open>the block has a CDATA message that, trimmed, is neither empty nor the generic one\<close>
  "is_meaningful b =
     (case cdata_message b of
        None \<Rightarrow> False
      | Some m \<Rightarrow> trim m \<noteq> [] \<and> trim m \<noteq> js ''One or more child tests had errors'')"

definition failure_detail :: "jstring \<Rightarrow> jstring" where
  \<comment> \<open>the detail of one failure block: its message, and its stack trace if it has one\<close>
  "failure_detail b =
     js ''\<newline>Failure message: '' @ (case cdata_message b of None \<Rightarrow> [] | Some m \<Rightarrow> trim m)
     @ js ''\<newline>''
     @ (case cdata_stack b of None \<Rightarrow> [] | Some st \<Rightarrow> js ''Stack: '' @ trim st @ js ''\<newline>'')"

definition first_detail :: "jstring \<Rightarrow> jstring" where
  \<comment> \<open>the detail of the first meaningful failure block of a document, if there is one\<close>
  "first_detail xml =
     (case find is_meaningful (failure_blocks xml) of
        None \<Rightarrow> []
      | Some b \<Rightarrow> failure_detail b)"

definition tag_name :: "jstring \<Rightarrow> jstring option" where
  \<comment> \<open>the text between the first \<^verbatim>\<open>name="\<close> of a tag and the next double quote\<close>
  \<open>tag_name tag = text_between (js ''name="'') (js ''"'') tag\<close>

definition dash_line :: "jstring \<Rightarrow> jstring" where
  \<comment> \<open>the line of a failed case in the summary: its name after a dash, or nothing when the
      tag has no name\<close>
  "dash_line tag =
     (case tag_name tag of None \<Rightarrow> [] | Some v \<Rightarrow> js ''  - '' @ v @ js ''\<newline>'')"

definition blank :: "jstring \<Rightarrow> bool" where
  \<comment> \<open>a text of white space only (the empty text included)\<close>
  "blank text = list_all is_space text"

definition stream_section :: "jstring \<Rightarrow> jstring \<Rightarrow> jstring" where
  \<comment> \<open>The section of a captured stream as the specification words it: nothing for a blank
      text, and otherwise the labelled heading and the text, of which only the last 1000
      code units are kept when it is longer.\<close>
  "stream_section label text =
     (if blank text then []
      else js ''\<newline>\<newline>['' @ label @ js '' tail]\<newline>''
           @ (if length text > 1000 then drop (length text - 1000) text else text))"

definition failed_tag_at :: "jstring \<Rightarrow> jstring option" where
  \<comment> \<open>The failed test-case tag that starts a text, read without the matcher: the text
      \<^verbatim>\<open><test-case\<close>, then the characters up to the first \<^verbatim>\<open>></\<close> after it, which must have
      \<^verbatim>\<open>result="Failed"\<close> among them, and that \<^verbatim>\<open>></\<close>.\<close>
  \<open>failed_tag_at s =
     (if prefix (js ''<test-case'') s
      then (let r = drop (length (js ''<test-case'')) s;
                seg = takeWhile (\<lambda>c. c \<noteq> GT) r
            in if length seg < length r \<and> sublist (js ''result="Failed"'') seg
               then Some (js ''<test-case'' @ seg @ [GT])
               else None)
      else None)\<close>

definition failed_tags :: "jstring \<Rightarrow> jstring list" where
  \<comment> \<open>the failed test-case tags of a document, from left to right\<close>
  "failed_tags xml = units failed_tag_at xml"

definition listed_names :: "jstring \<Rightarrow> jstring list" where
  \<comment> \<open>the names of the failed tags that have one, in the order of the tags\<close>
  "listed_names xml = List.map_filter tag_name (failed_tags xml)"

definition failed_cases_section :: "jstring \<Rightarrow> jstring" where
  \<comment> \<open>The failed-case stage as the specification words it: nothing when the document has
      no failed tag, and otherwise the heading with the number of failed tags and one line
      with a dash for each listed name.\<close>
  "failed_cases_section xml =
     (if failed_tags xml = [] then []
      else js ''Failed cases ('' @ show_nat (length (failed_tags xml)) @ js ''):\<newline>''
           @ concat (map (\<lambda>v. js ''  - '' @ v @ js ''\<newline>'') (listed_names xml)))"

section \<open>Strings: blank texts\<close>

lemma trim_empty_iff: "trim s = [] \<longleftrightarrow> list_all is_space s"
proof -
  have "dropWhile is_space (rev (dropWhile is_space s)) = [] \<longleftrightarrow> dropWhile is_space s = []"
  proof
    assume a: "dropWhile is_space (rev (dropWhile is_space s)) = []"
    show "dropWhile is_space s = []"
    proof (rule ccontr)
      assume n: "dropWhile is_space s \<noteq> []"
      then have "\<not> is_space (hd (dropWhile is_space s))" by (rule hd_dropWhile)
      moreover have "hd (dropWhile is_space s) \<in> set (rev (dropWhile is_space s))"
        using n by simp
      ultimately show False using a by (auto simp: dropWhile_eq_Nil_conv)
    qed
  next
    assume a: "dropWhile is_space s = []"
    show "dropWhile is_space (rev (dropWhile is_space s)) = []"
      unfolding a by simp
  qed
  then show ?thesis
    by (simp add: trim_def list_all_iff)
qed

lemma summarize_eq:
  "summarize toLowerCase fs resultsPath logPath pc =
     Inr (results_section fs resultsPath @ footer logPath (exit_code_of (code pc))
          @ tail_section (js ''stdout'') (stdoutBuf pc) @ tail_section (js ''stderr'') (stderrBuf pc)
          @ log_section toLowerCase fs logPath (exit_code_of (code pc)),
          exit_code_of (code pc))"
  by (simp add: summarize_def Let_def)

section \<open>The matcher: soundness and completeness\<close>

lemma greedy_sound:
  "greedy cl k acc s = Some r \<Longrightarrow>
   \<exists>t rest. s = t @ rest \<and> list_all (accepts cl) t \<and> k (acc @ t) rest = Some r"
proof (induction s arbitrary: acc)
  case Nil
  then show ?case by simp
next
  case (Cons x s)
  show ?case
  proof (cases "accepts cl x \<and> greedy cl k (acc @ [x]) s \<noteq> None")
    case True
    then have "greedy cl k (acc @ [x]) s = Some r" using Cons.prems by auto
    from Cons.IH [OF this] obtain t rest where
      "s = t @ rest" "list_all (accepts cl) t" "k ((acc @ [x]) @ t) rest = Some r" by blast
    then have "x # s = (x # t) @ rest \<and> list_all (accepts cl) (x # t) \<and> k (acc @ (x # t)) rest = Some r"
      using True by simp
    then show ?thesis by blast
  next
    case False
    then have "k acc (x # s) = Some r" using Cons.prems by (auto split: if_splits option.splits)
    then have "x # s = [] @ (x # s) \<and> list_all (accepts cl) [] \<and> k (acc @ []) (x # s) = Some r"
      by simp
    then show ?thesis by blast
  qed
qed

lemma greedy_complete:
  "list_all (accepts cl) t \<Longrightarrow> k (acc @ t) rest \<noteq> None \<Longrightarrow> greedy cl k acc (t @ rest) \<noteq> None"
proof (induction t arbitrary: acc)
  case Nil
  then show ?case by (cases rest) (auto split: option.splits)
next
  case (Cons x t)
  then have "greedy cl k (acc @ [x]) (t @ rest) \<noteq> None" by simp
  then show ?case using Cons.prems by (auto split: option.splits)
qed

lemma greedy_longest:
  "list_all (accepts cl) t \<Longrightarrow> rest = [] \<or> \<not> accepts cl (hd rest) \<Longrightarrow>
   k (acc @ t) rest = Some r \<Longrightarrow> greedy cl k acc (t @ rest) = Some r"
proof (induction t arbitrary: acc)
  case Nil
  then show ?case by (cases rest) auto
next
  case (Cons x t)
  then have "greedy cl k (acc @ [x]) (t @ rest) = Some r" by simp
  then show ?case using Cons.prems by simp
qed

lemma lazy_sound:
  "lazy cl k acc s = Some r \<Longrightarrow>
   \<exists>t rest. s = t @ rest \<and> list_all (accepts cl) t \<and> k (acc @ t) rest = Some r"
proof (induction s arbitrary: acc)
  case Nil
  then show ?case by simp
next
  case (Cons x s)
  show ?case
  proof (cases "k acc (x # s)")
    case (Some r')
    then have "x # s = [] @ (x # s) \<and> list_all (accepts cl) [] \<and> k (acc @ []) (x # s) = Some r"
      using Cons.prems by simp
    then show ?thesis by blast
  next
    case None
    then have a: "accepts cl x" and "lazy cl k (acc @ [x]) s = Some r"
      using Cons.prems by (auto split: if_splits)
    from Cons.IH [OF this(2)] obtain t rest where
      "s = t @ rest" "list_all (accepts cl) t" "k ((acc @ [x]) @ t) rest = Some r" by blast
    then have "x # s = (x # t) @ rest \<and> list_all (accepts cl) (x # t) \<and> k (acc @ (x # t)) rest = Some r"
      using a by simp
    then show ?thesis by blast
  qed
qed

lemma lazy_complete:
  "list_all (accepts cl) t \<Longrightarrow> k (acc @ t) rest \<noteq> None \<Longrightarrow> lazy cl k acc (t @ rest) \<noteq> None"
proof (induction t arbitrary: acc)
  case Nil
  then show ?case by (cases rest) (auto split: option.splits)
next
  case (Cons x t)
  then have "lazy cl k (acc @ [x]) (t @ rest) \<noteq> None" by simp
  then show ?case using Cons.prems by (auto split: option.splits)
qed

lemma quantified_sound:
  "quantified q cl k s = Some r \<Longrightarrow>
   \<exists>t rest. s = t @ rest \<and> fits (P cl q) t \<and> k t rest = Some r"
proof (cases q)
  case Once
  assume a: "quantified q cl k s = Some r"
  then obtain x s' where s: "s = x # s'" using Once by (cases s) auto
  then have "s = [x] @ s' \<and> fits (P cl q) [x] \<and> k [x] s' = Some r"
    using a Once by (auto simp: fits_def split: if_splits)
  then show ?thesis by blast
next
  case Plus
  assume a: "quantified q cl k s = Some r"
  then obtain x s' where s: "s = x # s'" using Plus by (cases s) auto
  then have ax: "accepts cl x" and "greedy cl k [x] s' = Some r"
    using a Plus by (auto split: if_splits)
  from greedy_sound [OF this(2)] obtain t rest where
    "s' = t @ rest" "list_all (accepts cl) t" "k ([x] @ t) rest = Some r" by blast
  then have "s = (x # t) @ rest \<and> fits (P cl q) (x # t) \<and> k (x # t) rest = Some r"
    using s ax Plus by (simp add: fits_def)
  then show ?thesis by blast
next
  case Star
  assume a: "quantified q cl k s = Some r"
  then have "greedy cl k [] s = Some r" using Star by simp
  from greedy_sound [OF this] show ?thesis using Star by (simp add: fits_def)
next
  case LazyStar
  assume a: "quantified q cl k s = Some r"
  then have "lazy cl k [] s = Some r" using LazyStar by simp
  from lazy_sound [OF this] show ?thesis using LazyStar by (simp add: fits_def)
next
  case Opt
  assume a: "quantified q cl k s = Some r"
  show ?thesis
  proof (cases "k [] s = Some r")
    case True
    then have "s = [] @ s \<and> fits (P cl q) [] \<and> k [] s = Some r" using Opt by (simp add: fits_def)
    then show ?thesis by blast
  next
    case False
    then obtain x s' where s: "s = x # s'" using a Opt by (cases s) auto
    then have "accepts cl x \<and> k [x] s' = Some r"
      using a False Opt by (auto split: if_splits option.splits)
    then have "s = [x] @ s' \<and> fits (P cl q) [x] \<and> k [x] s' = Some r"
      using s Opt by (simp add: fits_def)
    then show ?thesis by blast
  qed
qed

lemma quantified_complete:
  "fits (P cl q) t \<Longrightarrow> k t rest \<noteq> None \<Longrightarrow> quantified q cl k (t @ rest) \<noteq> None"
proof (cases q)
  case Once
  assume "fits (P cl q) t" "k t rest \<noteq> None"
  then show ?thesis using Once by (cases t) (auto simp: fits_def)
next
  case Plus
  assume a: "fits (P cl q) t" "k t rest \<noteq> None"
  then obtain x t' where t: "t = x # t'" using Plus by (cases t) (auto simp: fits_def)
  then have "list_all (accepts cl) t'" "k ([x] @ t') rest \<noteq> None" "accepts cl x"
    using a by (auto simp: fits_def)
  with greedy_complete [of cl t' k "[x]" rest] show ?thesis using t Plus by simp
next
  case Star
  assume a: "fits (P cl q) t" "k t rest \<noteq> None"
  then have "list_all (accepts cl) t" "k ([] @ t) rest \<noteq> None" by (auto simp: fits_def)
  with greedy_complete [of cl t k "[]" rest] show ?thesis using Star by simp
next
  case LazyStar
  assume a: "fits (P cl q) t" "k t rest \<noteq> None"
  then have "list_all (accepts cl) t" "k ([] @ t) rest \<noteq> None" by (auto simp: fits_def)
  with lazy_complete [of cl t k "[]" rest] show ?thesis using LazyStar by simp
next
  case Opt
  assume a: "fits (P cl q) t" "k t rest \<noteq> None"
  show ?thesis
  proof (cases t)
    case Nil
    then show ?thesis using a Opt by (cases rest) (auto split: option.splits)
  next
    case (Cons x t')
    then have "t' = []" "accepts cl x" using a Opt by (auto simp: fits_def)
    then show ?thesis using a Cons Opt by (auto split: option.splits)
  qed
qed

lemma fits_cong: "cls_of p = cls_of p' \<Longrightarrow> quant_of p = quant_of p' \<Longrightarrow> fits p = fits p'"
  by (rule ext) (simp add: fits_def)

lemma fits_P: "fits (P (cls_of p) (quant_of p)) = fits p"
  by (rule fits_cong) simp_all

lemma match_here_sound:
  "match_here ps s = Some (ts, rest) \<Longrightarrow> s = concat ts @ rest \<and> list_all2 fits ps ts"
proof (induction ps arbitrary: s ts)
  case Nil
  then show ?case by simp
next
  case (Cons p ps)
  from Cons.prems quantified_sound
    [of "quant_of p" "cls_of p" "\<lambda>t rest. add_text t (match_here ps rest)" s "(ts, rest)"]
  obtain t s' where t: "s = t @ s'" "fits p t" "add_text t (match_here ps s') = Some (ts, rest)"
    by (auto simp: fits_P)
  then obtain ts' where ts': "match_here ps s' = Some (ts', rest)" "ts = t # ts'"
    by (cases "match_here ps s'") auto
  from Cons.IH [OF ts'(1)] t ts' show ?case by simp
qed

lemma match_here_complete:
  "list_all2 fits ps ts \<Longrightarrow> match_here ps (concat ts @ rest) \<noteq> None"
proof (induction ps arbitrary: ts)
  case Nil
  then show ?case by simp
next
  case (Cons p ps)
  then obtain t ts' where ts: "ts = t # ts'" "fits p t" "list_all2 fits ps ts'"
    by (auto simp: list_all2_Cons1)
  from Cons.IH [OF ts(3)] obtain r where "match_here ps (concat ts' @ rest) = Some r" by auto
  then have "add_text t (match_here ps (concat ts' @ rest)) \<noteq> None" by (cases r) simp
  with quantified_complete
    [of "cls_of p" "quant_of p" t "\<lambda>t rest. add_text t (match_here ps rest)" "concat ts' @ rest"]
    ts(2)
  show ?case using ts(1) by (simp add: fits_P)
qed

lemma match_here_length: "match_here ps s = Some (ts, rest) \<Longrightarrow> length ts = length ps"
  by (drule match_here_sound) (auto dest: list_all2_lengthD)

lemma captures_length:
  "length ts = length ps \<Longrightarrow> length (captures ps ts) = length (filter is_cap ps)"
  by (induction ps ts rule: captures.induct) auto

lemma exec_at_Some:
  "exec_at re s = Some m \<Longrightarrow>
   \<exists>ts. match_here re s = Some (ts, after m) \<and> matched m = concat ts \<and> groups m = captures re ts
        \<and> s = matched m @ after m \<and> list_all2 fits re ts"
  by (auto simp: exec_at_def split: option.splits dest: match_here_sound)

lemma exec_at_None: "exec_at re s = None \<longleftrightarrow> match_here re s = None"
  by (auto simp: exec_at_def split: option.splits)

lemma match_first_Some:
  "match_first re s = Some m \<Longrightarrow> \<exists>pre. s = pre @ matched m @ after m \<and> exec_at re (matched m @ after m) = Some m"
proof (induction s)
  case Nil
  then have e: "exec_at re [] = Some m" by simp
  from exec_at_Some [OF e] have "matched m @ after m = []" by auto
  with e have "[] = [] @ matched m @ after m \<and> exec_at re (matched m @ after m) = Some m"
    by simp
  then show ?case by blast
next
  case (Cons c s)
  show ?case
  proof (cases "exec_at re (c # s)")
    case None
    then have "match_first re s = Some m" using Cons.prems by simp
    from Cons.IH [OF this] obtain pre where "s = pre @ matched m @ after m"
      "exec_at re (matched m @ after m) = Some m" by blast
    then have "c # s = (c # pre) @ matched m @ after m \<and> exec_at re (matched m @ after m) = Some m"
      by simp
    then show ?thesis by blast
  next
    case (Some m')
    then have "m' = m" using Cons.prems by simp
    with Some exec_at_Some [of re "c # s" m]
    have "c # s = [] @ matched m @ after m \<and> exec_at re (matched m @ after m) = Some m" by auto
    then show ?thesis by blast
  qed
qed

lemma match_first_complete:
  "match_here re s \<noteq> None \<Longrightarrow> match_first re (pre @ s) \<noteq> None"
proof (induction pre)
  case Nil
  then show ?case by (cases s) (auto simp: exec_at_None split: option.splits)
next
  case (Cons c pre)
  then show ?case by (auto split: option.splits)
qed

lemma match_first_leftmost:
  "(\<forall>i<length pre. match_here re (drop i (pre @ s)) = None) \<Longrightarrow>
   match_first re (pre @ s) = (case s of [] \<Rightarrow> exec_at re [] | _ \<Rightarrow> match_first re s)"
proof (induction pre)
  case Nil
  then show ?case by (cases s) auto
next
  case (Cons c pre)
  have "\<forall>i<length pre. match_here re (drop i (pre @ s)) = None"
  proof (intro allI impI)
    fix i assume "i < length pre"
    then have "Suc i < length (c # pre)" by simp
    with Cons.prems have "match_here re (drop (Suc i) ((c # pre) @ s)) = None" by blast
    then show "match_here re (drop i (pre @ s)) = None" by simp
  qed
  from Cons.IH [OF this] have ih: "match_first re (pre @ s) = (case s of [] \<Rightarrow> exec_at re [] | _ \<Rightarrow> match_first re s)" .
  have "match_here re (drop 0 ((c # pre) @ s)) = None" using Cons.prems by blast
  then have "exec_at re (c # pre @ s) = None" by (simp add: exec_at_None)
  then show ?case using ih by simp
qed

section \<open>Literal prefixes of a pattern\<close>

lemma starts_with_prefix: "starts_with s p \<longleftrightarrow> prefix p s"
  by (induction s p rule: starts_with.induct) auto

lemma index_of_first:
  "index_of p (pre @ s) = Some (length pre) \<Longrightarrow> i < length pre \<Longrightarrow> \<not> prefix p (drop i (pre @ s))"
proof (induction pre arbitrary: i)
  case Nil
  then show ?case by simp
next
  case (Cons c pre)
  from Cons.prems(1) have n: "\<not> starts_with (c # pre @ s) p"
    and r: "index_of p (pre @ s) = Some (length pre)"
    by (auto split: if_splits option.splits)
  show ?case
  proof (cases i)
    case 0
    then show ?thesis using n by (simp add: starts_with_prefix)
  next
    case (Suc j)
    then have "j < length pre" using Cons.prems(2) by simp
    from Cons.IH [OF r this] show ?thesis using Suc by simp
  qed
qed

lemma match_here_lit:
  "match_here (lit l @ ps) (l @ s) =
     (case match_here ps s of None \<Rightarrow> None | Some (ts, r) \<Rightarrow> Some (map (\<lambda>c. [c]) l @ ts, r))"
proof (induction l)
  case Nil
  then show ?case by (simp add: lit_def split: option.splits)
next
  case (Cons c l)
  have "lit (c # l) @ ps = P (Exactly c) Once # (lit l @ ps)" by (simp add: lit_def)
  then show ?case using Cons by (simp split: option.splits)
qed

lemma match_here_lit_None: "\<not> prefix l s \<Longrightarrow> match_here (lit l @ ps) s = None"
proof (induction l arbitrary: s)
  case Nil
  then show ?case by simp
next
  case (Cons c l)
  have e: "lit (c # l) @ ps = P (Exactly c) Once # (lit l @ ps)" by (simp add: lit_def)
  show ?case
  proof (cases s)
    case Nil
    then show ?thesis by (simp add: e)
  next
    case (Cons x s')
    then show ?thesis using Cons.prems Cons.IH [of s'] by (simp add: e)
  qed
qed

lemma captures_lit: "captures (lit l @ ps) (map (\<lambda>c. [c]) l @ ts) = captures ps ts"
  by (induction l) (simp_all add: lit_def)

lemma concat_singletons: "concat (map (\<lambda>c. [c]) l) = l"
  by (induction l) simp_all

lemma fits_lit: "fits (P (Exactly c) Once) t \<longleftrightarrow> t = [c]"
  by (cases t) (auto simp: fits_def)

lemma list_all2_fits_lit:
  "list_all2 fits (lit l @ ps) ts \<longleftrightarrow>
     (\<exists>ts'. ts = map (\<lambda>c. [c]) l @ ts' \<and> list_all2 fits ps ts')"
proof (induction l arbitrary: ts)
  case Nil
  then show ?case by (simp add: lit_def)
next
  case (Cons c l)
  have e: "lit (c # l) @ ps = P (Exactly c) Once # (lit l @ ps)" by (simp add: lit_def)
  show ?case unfolding e by (auto simp: list_all2_Cons1 fits_lit Cons.IH)
qed

section \<open>Global matching\<close>

lemma match_all_None:
  "exec_at re s = None \<Longrightarrow> match_all re s = (case s of [] \<Rightarrow> [] | c # s' \<Rightarrow> match_all re s')"
  by (subst match_all.simps) simp

lemma match_all_Some_advance:
  "exec_at re s = Some m \<Longrightarrow> length (after m) < length s \<Longrightarrow>
   match_all re s = matched m # match_all re (after m)"
  by (subst match_all.simps) simp

lemma match_all_Some_empty:
  "exec_at re s = Some m \<Longrightarrow> \<not> length (after m) < length s \<Longrightarrow>
   match_all re s = matched m # (case s of [] \<Rightarrow> [] | c # s' \<Rightarrow> match_all re s')"
  by (subst match_all.simps) (simp split: list.splits)

lemma match_all_fits:
  "t \<in> set (match_all re s) \<Longrightarrow> \<exists>ts. list_all2 fits re ts \<and> concat ts = t"
proof (induction "length s" arbitrary: s rule: less_induct)
  case less
  show ?case
  proof (cases "exec_at re s")
    case None
    have "t \<in> set (case s of [] \<Rightarrow> [] | c # s' \<Rightarrow> match_all re s')"
      using less.prems unfolding match_all_None [OF None] .
    then obtain c s' where s: "s = c # s'" "t \<in> set (match_all re s')"
      by (cases s) auto
    with less.hyps [of s'] show ?thesis by simp
  next
    case (Some m)
    from exec_at_Some [OF Some] obtain ts where
      ts: "matched m = concat ts" "list_all2 fits re ts" by blast
    show ?thesis
    proof (cases "t = matched m")
      case True
      with ts have "list_all2 fits re ts \<and> concat ts = t" by simp
      then show ?thesis by (rule exI)
    next
      case False
      show ?thesis
      proof (cases "length (after m) < length s")
        case True
        then have "t \<in> set (match_all re (after m))"
          using less.prems False match_all_Some_advance [OF Some True] by simp
        with less.hyps [OF True] show ?thesis by blast
      next
        case nl: False
        have "t \<in> set (matched m # (case s of [] \<Rightarrow> [] | c # s' \<Rightarrow> match_all re s'))"
          using less.prems unfolding match_all_Some_empty [OF Some nl] .
        with False have "t \<in> set (case s of [] \<Rightarrow> [] | c # s' \<Rightarrow> match_all re s')" by simp
        then obtain c s' where s: "s = c # s'" "t \<in> set (match_all re s')"
          by (cases s) auto
        with less.hyps [of s'] show ?thesis by simp
      qed
    qed
  qed
qed

lemma match_all_Nil_iff: "match_all re s = [] \<longleftrightarrow> match_first re s = None"
proof (induction s)
  case Nil
  show ?case by (subst match_all.simps) (simp split: option.splits)
next
  case (Cons c s)
  then show ?case by (subst match_all.simps) (simp split: option.splits)
qed

lemma match_all_Nil_no_match:
  "match_all re s = [] \<longleftrightarrow> (\<nexists>pre ts post. s = pre @ concat ts @ post \<and> list_all2 fits re ts)"
proof
  assume "match_all re s = []"
  then have n: "match_first re s = None" by (simp add: match_all_Nil_iff)
  show "\<nexists>pre ts post. s = pre @ concat ts @ post \<and> list_all2 fits re ts"
  proof
    assume "\<exists>pre ts post. s = pre @ concat ts @ post \<and> list_all2 fits re ts"
    then obtain pre ts post where s: "s = pre @ concat ts @ post" and f: "list_all2 fits re ts"
      by blast
    from match_here_complete [OF f, of post]
    have "match_first re (pre @ concat ts @ post) \<noteq> None" by (rule match_first_complete)
    with n s show False by simp
  qed
next
  assume a: "\<nexists>pre ts post. s = pre @ concat ts @ post \<and> list_all2 fits re ts"
  have "match_first re s = None"
  proof (cases "match_first re s")
    case (Some m)
    from match_first_Some [OF Some] obtain pre where
      p: "s = pre @ matched m @ after m" "exec_at re (matched m @ after m) = Some m" by blast
    from exec_at_Some [OF p(2)] obtain ts where "matched m = concat ts" "list_all2 fits re ts"
      by blast
    with p(1) a show ?thesis by blast
  qed simp
  then show "match_all re s = []" by (simp add: match_all_Nil_iff)
qed

lemma match_first_groups_length:
  assumes "match_first re s = Some m"
  shows "length (groups m) = length (filter is_cap re)"
proof -
  from match_first_Some [OF assms] obtain pre where
    "exec_at re (matched m @ after m) = Some m" by blast
  from exec_at_Some [OF this] obtain ts where
    ts: "groups m = captures re ts" "list_all2 fits re ts" by blast
  from ts(2) have "length ts = length re" by (simp add: list_all2_lengthD)
  from captures_length [OF this] ts(1) show ?thesis by simp
qed

lemma message_group:
  assumes "match_first message_re f = Some m"
  shows "\<exists>t. group m 1 = Some t"
proof -
  have "length (filter is_cap message_re) = 1" by (simp add: message_re_def lit_def js_def)
  with match_first_groups_length [OF assms] show ?thesis
    by (simp add: group_def at_index_def)
qed

lemma stack_group:
  assumes "match_first stack_re f = Some m"
  shows "\<exists>t. group m 1 = Some t"
proof -
  have "length (filter is_cap stack_re) = 1" by (simp add: stack_re_def lit_def js_def)
  with match_first_groups_length [OF assms] show ?thesis
    by (simp add: group_def at_index_def)
qed

section \<open>Reading a text without the matcher\<close>

lemma index_of_None_iff: "index_of p s = None \<longleftrightarrow> \<not> sublist p s"
  by (induction s) (auto simp: starts_with_prefix sublist_Cons_right split: option.splits)

lemma index_of_drop_None: "index_of p s = None \<Longrightarrow> index_of p (drop k s) = None"
  unfolding index_of_None_iff
  by (meson sublist_order.order_trans suffix_drop suffix_imp_sublist)

lemma index_of_Some:
  "index_of p s = Some i \<Longrightarrow> i \<le> length s \<and> prefix p (drop i s)"
proof (induction s arbitrary: i)
  case Nil
  then show ?case by (auto split: if_splits)
next
  case (Cons c s)
  show ?case
  proof (cases "starts_with (c # s) p")
    case True
    then show ?thesis using Cons.prems by (simp add: starts_with_prefix)
  next
    case False
    then obtain j where "index_of p s = Some j" "i = Suc j"
      using Cons.prems by (auto split: option.splits)
    with Cons.IH [of j] show ?thesis by simp
  qed
qed

lemma index_of_decomp:
  "index_of p s = Some i \<Longrightarrow> s = take i s @ p @ drop (i + length p) s"
proof -
  assume "index_of p s = Some i"
  from index_of_Some [OF this] obtain r where "drop i s = p @ r" by (auto simp: prefix_def)
  moreover from this have "drop (i + length p) s = r"
    by (metis add.commute append_eq_conv_conj drop_drop)
  ultimately show ?thesis by (metis append_take_drop_id)
qed

lemma match_here_lit_only:
  "match_here (lit C) r =
     (if prefix C r then Some (map (\<lambda>c. [c]) C, drop (length C) r) else None)"
proof (cases "prefix C r")
  case True
  then obtain r' where r: "r = C @ r'" by (auto simp: prefix_def)
  from match_here_lit [of C "[]" r'] show ?thesis using True r by simp
next
  case False
  from match_here_lit_None [OF this, of "[]"] show ?thesis using False by simp
qed

lemma lazy_any_then_lit:
  "lazy AnyChar (\<lambda>t r. add_text t (match_here (lit C) r)) acc s =
     (case index_of C s of
        None \<Rightarrow> None
      | Some j \<Rightarrow> Some ((acc @ take j s) # map (\<lambda>c. [c]) C, drop (j + length C) s))"
proof (induction s arbitrary: acc)
  case Nil
  then show ?case by (simp add: match_here_lit_only)
next
  case (Cons x s)
  show ?case
  proof (cases "prefix C (x # s)")
    case True
    then show ?thesis by (simp add: match_here_lit_only starts_with_prefix)
  next
    case False
    then show ?thesis using Cons.IH [of "acc @ [x]"]
      by (simp add: match_here_lit_only starts_with_prefix split: option.splits)
  qed
qed

lemma greedy_except_then_lit:
  "greedy (Except q) (\<lambda>t r. add_text t (match_here (lit [q]) r)) acc s =
     (case index_of [q] s of
        None \<Rightarrow> None
      | Some j \<Rightarrow> Some ((acc @ take j s) # map (\<lambda>c. [c]) [q], drop (j + length [q]) s))"
proof (induction s arbitrary: acc)
  case Nil
  then show ?case by (simp add: match_here_lit_only)
next
  case (Cons x s)
  show ?case
  proof (cases "x = q")
    case True
    then show ?thesis by (simp add: match_here_lit_only)
  next
    case False
    then show ?thesis using Cons.IH [of "acc @ [x]"]
      by (simp add: match_here_lit_only split: option.splits)
  qed
qed

lemma reads_to_lazy: "cls_of p = AnyChar \<Longrightarrow> quant_of p = LazyStar \<Longrightarrow> reads_to p C"
  unfolding reads_to_def using lazy_any_then_lit [of C "[]", unfolded append_Nil] by simp

lemma reads_to_greedy: "cls_of p = Except q \<Longrightarrow> quant_of p = Star \<Longrightarrow> reads_to p [q]"
  unfolding reads_to_def using greedy_except_then_lit [of q "[]", unfolded append_Nil] by simp

lemma exec_at_enclosed:
  assumes "reads_to p C"
  shows "exec_at (lit O' @ p # lit C) s =
     (if prefix O' s
      then (case index_of C (drop (length O') s) of
              None \<Rightarrow> None
            | Some j \<Rightarrow>
                Some \<lparr>matched = O' @ take j (drop (length O') s) @ C,
                      groups = (if is_cap p then [take j (drop (length O') s)] else []),
                      after = drop (j + length C) (drop (length O') s)\<rparr>)
      else None)"
proof (cases "prefix O' s")
  case False
  from match_here_lit_None [OF this] show ?thesis using False by (simp add: exec_at_def)
next
  case True
  then obtain r where s: "s = O' @ r" by (auto simp: prefix_def)
  have c: "captures (lit O' @ p # lit C) (map (\<lambda>c. [c]) O' @ t # map (\<lambda>c. [c]) C)
           = (if is_cap p then [t] else [])" for t
    using captures_lit [of C "[]" "[]"] by (simp add: captures_lit)
  show ?thesis
    using assms True
    by (auto simp: exec_at_def s match_here_lit reads_to_def c concat_singletons
             split: option.splits)
qed

lemma exec_at_matched_enclosed:
  "reads_to p C \<Longrightarrow> map_option matched (exec_at (lit O' @ p # lit C) s) = enclosed_at O' C s"
  by (simp add: exec_at_enclosed enclosed_at_def split: option.splits)

lemma text_between_Cons:
  "\<not> prefix O' (c # s) \<Longrightarrow> text_between O' C (c # s) = text_between O' C s"
  by (simp add: text_between_def starts_with_prefix split: option.splits)

lemma text_between_here:
  "prefix O' s \<Longrightarrow> s \<noteq> [] \<Longrightarrow>
   text_between O' C s = map_option (\<lambda>j. take j (drop (length O') s)) (index_of C (drop (length O') s))"
  by (cases s) (auto simp: text_between_def starts_with_prefix split: option.splits)

lemma text_between_None_later:
  assumes "index_of C (drop (length O') (c # s)) = None"
  shows "text_between O' C s = None"
proof (cases "index_of O' s")
  case None
  then show ?thesis by (simp add: text_between_def)
next
  case (Some i)
  have "drop (Suc i) (drop (length O') (c # s)) = drop (i + length O') s"
    by simp
  with index_of_drop_None [OF assms, of "Suc i"]
  have "index_of C (drop (i + length O') s) = None" by (simp only:)
  then show ?thesis
    by (simp add: text_between_def Some)
qed

lemma match_first_between:
  assumes "reads_to p C" "is_cap p" "O' \<noteq> []"
  shows "map_option groups (match_first (lit O' @ p # lit C) s)
         = map_option (\<lambda>v. [v]) (text_between O' C s)"
proof (induction s)
  case Nil
  then show ?case using assms(3) by (simp add: exec_at_enclosed [OF assms(1)] text_between_def)
next
  case (Cons c s)
  show ?case
  proof (cases "prefix O' (c # s)")
    case False
    then show ?thesis using Cons
      by (simp add: exec_at_enclosed [OF assms(1)] text_between_Cons)
  next
    case True
    show ?thesis
    proof (cases "index_of C (drop (length O') (c # s))")
      case None
      from text_between_None_later [OF None] Cons
      have "match_first (lit O' @ p # lit C) s = None" by simp
      then show ?thesis using True None
        by (simp add: exec_at_enclosed [OF assms(1)] text_between_here)
    next
      case (Some j)
      then show ?thesis using True assms(2)
        by (simp add: exec_at_enclosed [OF assms(1)] text_between_here)
    qed
  qed
qed

lemma match_all_units:
  assumes "\<And>s. map_option matched (exec_at re s) = at s"
  shows "match_all re s = units at s"
proof (induction "length s" arbitrary: s rule: less_induct)
  case less
  show ?case
  proof (cases "exec_at re s")
    case None
    with assms [of s] have a: "at s = None" by simp
    show ?thesis
    proof (cases s)
      case Nil
      then show ?thesis using match_all_None [OF None] a by (subst units.simps) simp
    next
      case (Cons c s')
      with less [of s'] have "match_all re s' = units at s'" by simp
      then show ?thesis using match_all_None [OF None] a Cons by (subst units.simps) simp
    qed
  next
    case (Some m)
    with assms [of s] have a: "at s = Some (matched m)" by simp
    from exec_at_Some [OF Some] have s: "s = matched m @ after m" by blast
    then have d: "after m = drop (length (matched m)) s"
      by (metis append_eq_conv_conj)
    show ?thesis
    proof (cases "length (after m) < length s")
      case True
      then obtain c s' where c: "s = c # s'" by (cases s) auto
      from True s have "matched m \<noteq> []" by auto
      then have "drop (length (matched m) - 1) s' = after m"
        using d c by (cases "matched m") auto
      moreover from less [OF True] have "match_all re (after m) = units at (after m)" .
      ultimately show ?thesis
        using match_all_Some_advance [OF Some True] a c by (subst units.simps) simp
    next
      case False
      with s have e: "matched m = []"
        by (metis append_self_conv2 d drop_eq_Nil length_drop less_nat_zero_code
            diff_is_0_eq' linorder_not_less list.size(3) length_append add.right_neutral
            add_diff_cancel_right' length_0_conv)
      show ?thesis
      proof (cases s)
        case Nil
        then show ?thesis using match_all_Some_empty [OF Some False] a e
          by (subst units.simps) simp
      next
        case (Cons c s')
        with less [of s'] have "match_all re s' = units at s'" by simp
        then show ?thesis using match_all_Some_empty [OF Some False] a e Cons
          by (subst units.simps) simp
      qed
    qed
  qed
qed

section \<open>The stages of the results document, read without the matcher\<close>

lemma js_append: "js (a @ b) = js a @ js b"
  by (simp add: js_def)

lemma js_dq: \<open>js ''"'' = [DQ]\<close>
  by (simp add: js_def)

lemma group_1: "group \<lparr>matched = a, groups = [v], after = b\<rparr> 1 = Some v"
  by (simp add: group_def at_index_def)

lemma group_of_groups: "groups m = [v] \<Longrightarrow> group m (Suc 0) = Some v"
  by (simp add: group_def at_index_def)

lemma match_first_group_Some:
  assumes "reads_to p C" "is_cap p" "O' \<noteq> []"
    and "match_first (lit O' @ p # lit C) s = Some m"
  shows "\<exists>v. group m (Suc 0) = Some v"
proof -
  from match_first_between [OF assms(1-3), of s] assms(4) have
    "Some (groups m) = map_option (\<lambda>v. [v]) (text_between O' C s)" by simp
  then obtain v where "groups m = [v]" by (cases "text_between O' C s") auto
  then show ?thesis by (simp add: group_of_groups)
qed

lemma match_first_group_between:
  assumes "reads_to p C" "is_cap p" "O' \<noteq> []"
  shows "(case match_first (lit O' @ p # lit C) s of None \<Rightarrow> None | Some m \<Rightarrow> group m 1)
         = text_between O' C s"
proof (cases "match_first (lit O' @ p # lit C) s")
  case None
  with match_first_between [OF assms, of s] show ?thesis by simp
next
  case (Some m)
  with match_first_between [OF assms, of s] have
    "Some (groups m) = map_option (\<lambda>v. [v]) (text_between O' C s)" by simp
  then obtain v where "text_between O' C s = Some v" "groups m = [v]"
    by (cases "text_between O' C s") auto
  then show ?thesis using Some by (simp add: group_of_groups)
qed

lemma match_first_None_between:
  assumes "reads_to p C" "is_cap p" "O' \<noteq> []"
  shows "match_first (lit O' @ p # lit C) s = None \<longleftrightarrow> text_between O' C s = None"
  using match_first_between [OF assms, of s]
  by (cases "match_first (lit O' @ p # lit C) s"; cases "text_between O' C s") auto

lemma name_re_shape: \<open>name_re = lit (js ''name="'') @ Cap (Except DQ) Star # lit [DQ]\<close>
  by (simp add: name_re_def js_dq)

lemma name_group_eq:
  "(case match_first name_re tag of None \<Rightarrow> None | Some m \<Rightarrow> group m 1) = tag_name tag"
proof -
  have r: "reads_to (Cap (Except DQ) Star) [DQ]" by (rule reads_to_greedy) simp_all
  have n: \<open>js ''name="'' \<noteq> []\<close> by (simp add: js_def)
  from match_first_group_between [OF r _ n, of tag] show ?thesis
    unfolding name_re_shape tag_name_def js_dq by simp
qed

lemma name_line_eq: "name_line tag = dash_line tag"
proof (cases "match_first name_re tag")
  case None
  with name_group_eq [of tag] show ?thesis by (simp add: name_line_def dash_line_def)
next
  case (Some m)
  have r: "reads_to (Cap (Except DQ) Star) [DQ]" by (rule reads_to_greedy) simp_all
  have n: \<open>js ''name="'' \<noteq> []\<close> by (simp add: js_def)
  from match_first_group_Some [OF r _ n, of tag m] Some obtain v where
    v: "group m (Suc 0) = Some v" unfolding name_re_shape by auto
  with name_group_eq [of tag] Some have "tag_name tag = Some v" by simp
  then show ?thesis using Some v by (simp add: name_line_def dash_line_def tpl_def)
qed

lemma message_re_shape:
  "message_re = lit (js ''<message><![CDATA['') @ Cap AnyChar LazyStar # lit (js '']]></message>'')"
  by (simp add: message_re_def)

lemma stack_re_shape:
  "stack_re = lit (js ''<stack-trace><![CDATA['') @ Cap AnyChar LazyStar # lit (js '']]></stack-trace>'')"
  by (simp add: stack_re_def)

lemma message_group_eq:
  "(case match_first message_re b of None \<Rightarrow> None | Some m \<Rightarrow> group m 1) = cdata_message b"
proof -
  have r: "reads_to (Cap AnyChar LazyStar) (js '']]></message>'')" by (rule reads_to_lazy) simp_all
  have n: "js ''<message><![CDATA['' \<noteq> []" by (simp add: js_def)
  from match_first_group_between [OF r _ n, of b] show ?thesis
    unfolding message_re_shape cdata_message_def by simp
qed

lemma stack_group_eq:
  "(case match_first stack_re b of None \<Rightarrow> None | Some m \<Rightarrow> group m 1) = cdata_stack b"
proof -
  have r: "reads_to (Cap AnyChar LazyStar) (js '']]></stack-trace>'')" by (rule reads_to_lazy) simp_all
  have n: "js ''<stack-trace><![CDATA['' \<noteq> []" by (simp add: js_def)
  from match_first_group_between [OF r _ n, of b] show ?thesis
    unfolding stack_re_shape cdata_stack_def by simp
qed

lemma failure_loop_step:
  "failure_loop (b # bs) = (if is_meaningful b then (failure_detail b, None) else failure_loop bs)"
proof (cases "match_first message_re b")
  case None
  with message_group_eq [of b] have "cdata_message b = None" by simp
  then show ?thesis using None by (simp add: is_meaningful_def)
next
  case (Some m)
  from message_group [OF Some] obtain t where t: "group m 1 = Some t" by blast
  with message_group_eq [of b] Some have c: "cdata_message b = Some t" by simp
  show ?thesis
  proof (cases "match_first stack_re b")
    case None
    with stack_group_eq [of b] have "cdata_stack b = None" by simp
    then show ?thesis using Some t c None
      by (simp add: is_meaningful_def failure_detail_def trim_of_def generic_message_def)
  next
    case st: (Some m')
    from stack_group [OF st] obtain u where u: "group m' 1 = Some u" by blast
    with stack_group_eq [of b] st have "cdata_stack b = Some u" by simp
    then show ?thesis using Some t c st u
      by (simp add: is_meaningful_def failure_detail_def trim_of_def generic_message_def)
  qed
qed

lemma failure_loop_find:
  "failure_loop bs =
     (case find is_meaningful bs of None \<Rightarrow> ([], None) | Some b \<Rightarrow> (failure_detail b, None))"
proof (induction bs)
  case Nil
  then show ?case by simp
next
  case (Cons b bs)
  then show ?case unfolding failure_loop_step by simp
qed

lemma failure_re_shape:
  "failure_re = lit (js ''<failure>'') @ P AnyChar LazyStar # lit (js ''</failure>'')"
  by (simp add: failure_re_def)

lemma match_all_failure_blocks: "match_all failure_re xml = failure_blocks xml"
proof -
  have r: "reads_to (P AnyChar LazyStar) (js ''</failure>'')" by (rule reads_to_lazy) simp_all
  show ?thesis
    unfolding failure_re_shape failure_blocks_def
    by (rule match_all_units) (rule exec_at_matched_enclosed [OF r])
qed

lemma failure_text_eq: "failure_text xml = (first_detail xml, None)"
  by (simp add: failure_text_def failure_loop_find match_all_failure_blocks first_detail_def
           split: option.splits)

lemma summarize_readable:
  assumes "fs resultsPath = Inr xml"
  shows "summarize toLowerCase fs resultsPath logPath pc =
     Inr (header_text xml @ totals_text xml @ failed_cases_text xml @ first_detail xml
          @ footer logPath (exit_code_of (code pc))
          @ tail_section (js ''stdout'') (stdoutBuf pc) @ tail_section (js ''stderr'') (stderrBuf pc)
          @ log_section toLowerCase fs logPath (exit_code_of (code pc)),
          exit_code_of (code pc))"
  using assms
  by (simp add: summarize_eq results_section_def try_results_def failure_text_eq)

section \<open>The tails of the captured streams\<close>

lemma tail_section_eq: "tail_section label text = stream_section label text"
  by (simp add: tail_section_def stream_section_def blank_def tail_def slice_last_def
        trim_empty_iff)

text \<open>
  Claim C7. Whatever the run delivered, the summary is the results section and the footer,
  then the section of the standard output, then the section of the standard error, then
  the log section; the section of a stream is absent when the captured text is blank, and
  otherwise is the heading \<^verbatim>\<open>[stdout tail]\<close> or \<^verbatim>\<open>[stderr tail]\<close> followed by the text, cut
  to its last 1000 code units when it is longer: what is kept then has length 1000 and is
  the end of the text.
\<close>

theorem summary_stream_tails:
  "summarize toLowerCase fs resultsPath logPath pc =
     Inr (results_section fs resultsPath @ footer logPath (exit_code_of (code pc))
          @ stream_section (js ''stdout'') (stdoutBuf pc)
          @ stream_section (js ''stderr'') (stderrBuf pc)
          @ log_section toLowerCase fs logPath (exit_code_of (code pc)),
          exit_code_of (code pc))
   \<and> (length (stdoutBuf pc) > 1000 \<longrightarrow>
        length (drop (length (stdoutBuf pc) - 1000) (stdoutBuf pc)) = 1000
        \<and> suffix (drop (length (stdoutBuf pc) - 1000) (stdoutBuf pc)) (stdoutBuf pc))"
  by (simp add: summarize_eq tail_section_eq suffix_drop)

theorem summary_stream_tails_witness:
  "summarize (\<lambda>s. s) (\<lambda>p. Inl (JsError (js ''ENOENT''))) (js ''results.xml'') (js ''batch.log'')
     \<lparr>code = Some 0, stdoutBuf = js ''head'' @ replicate 1000 120, stderrBuf = [32, 10, 9]\<rparr>
   = Inr (js ''No results.xml found or failed to parse.\<newline>\<newline>Log: batch.log\<newline>Exit code: 0\<newline>\<newline>[stdout tail]\<newline>''
          @ replicate 1000 120, 0)
   \<and> length (js ''head'' @ replicate 1000 (120 :: nat)) > 1000"
proof -
  let ?fs = "\<lambda>p :: jstring. (Inl (JsError (js ''ENOENT'')) :: js_error + jstring)"
  let ?out = "js ''head'' @ replicate 1000 (120 :: nat)"
  let ?pc = "\<lparr>code = Some 0, stdoutBuf = ?out, stderrBuf = [32, 10, 9]\<rparr>"
  have h: "js ''head'' = [104, 101, 97, 100]" by code_simp
  have r: "results_section ?fs (js ''results.xml'') @ footer (js ''batch.log'') 0
        = js ''No results.xml found or failed to parse.\<newline>\<newline>Log: batch.log\<newline>Exit code: 0''"
    by code_simp
  have o: "stream_section (js ''stdout'') ?out = js ''\<newline>\<newline>[stdout tail]\<newline>'' @ replicate 1000 120"
    unfolding h by (simp add: stream_section_def blank_def is_space_def js_append [symmetric])
  have e: "stream_section (js ''stderr'') [32, 10, 9] = []" by code_simp
  have g: "log_section (\<lambda>s. s) ?fs (js ''batch.log'') 0 = []" by (simp add: log_section_def)
  have l: "length ?out > 1000" by (simp add: js_def)
  from summary_stream_tails [of "\<lambda>s. s" ?fs "js ''results.xml''" "js ''batch.log''" ?pc]
  have "summarize (\<lambda>s. s) ?fs (js ''results.xml'') (js ''batch.log'') ?pc =
     Inr (results_section ?fs (js ''results.xml'') @ footer (js ''batch.log'') (exit_code_of (code ?pc))
          @ stream_section (js ''stdout'') (stdoutBuf ?pc)
          @ stream_section (js ''stderr'') (stderrBuf ?pc)
          @ log_section (\<lambda>s. s) ?fs (js ''batch.log'') (exit_code_of (code ?pc)),
          exit_code_of (code ?pc))"
    by (rule conjunct1)
  then have "summarize (\<lambda>s. s) ?fs (js ''results.xml'') (js ''batch.log'') ?pc =
     Inr ((results_section ?fs (js ''results.xml'') @ footer (js ''batch.log'') 0)
          @ stream_section (js ''stdout'') ?out, 0)"
    by (simp add: exit_code_of_def e g)
  then show ?thesis unfolding r o using l by (simp add: js_append [symmetric])
qed

section \<open>The names of the failed cases\<close>

lemma index_of_single: "c \<notin> set v \<Longrightarrow> index_of [c] (v @ c # r) = Some (length v)"
  by (induction v) (simp_all add: starts_with_prefix)

lemma tag_name_first:
  assumes tag: \<open>tag = pre @ js ''name="'' @ v @ [DQ] @ post\<close>
    and nq: "DQ \<notin> set v"
    and ix: \<open>index_of (js ''name="'') tag = Some (length pre)\<close>
  shows "tag_name tag = Some v"
proof -
  have d: \<open>drop (length pre + length (js ''name="'')) tag = v @ DQ # post\<close>
    unfolding tag by simp
  show ?thesis
    unfolding tag_name_def text_between_def ix js_dq
    by (simp only: option.case d index_of_single [OF nq]) simp
qed

lemma tag_name_Some:
  assumes "tag_name tag = Some v"
  shows \<open>\<exists>pre post. tag = pre @ js ''name="'' @ v @ [DQ] @ post\<close>
proof -
  let ?N = \<open>js ''name="''\<close>
  from assms obtain i j where i: "index_of ?N tag = Some i"
    and j: "index_of [DQ] (drop (i + length ?N) tag) = Some j"
    and v: "v = take j (drop (i + length ?N) tag)"
    unfolding tag_name_def text_between_def js_dq by (auto split: option.splits)
  define r where "r = drop (i + length ?N) tag"
  from index_of_decomp [OF i] have a: "tag = take i tag @ ?N @ r" unfolding r_def .
  from index_of_decomp [OF j] have b: "r = v @ [DQ] @ drop (j + length [DQ]) r"
    unfolding v r_def .
  from b have "take i tag @ ?N @ r = take i tag @ ?N @ v @ [DQ] @ drop (j + length [DQ]) r"
    by (rule arg_cong [where f = "\<lambda>x. take i tag @ ?N @ x"])
  with a have "tag = take i tag @ ?N @ v @ [DQ] @ drop (j + length [DQ]) r" by (rule trans)
  then show ?thesis by blast
qed

lemma tag_name_None:
  assumes \<open>\<nexists>pre v post. tag = pre @ js ''name="'' @ v @ [DQ] @ post\<close>
  shows "tag_name tag = None"
proof (cases "tag_name tag")
  case (Some v)
  from tag_name_Some [OF this] assms show ?thesis by blast
qed simp

text \<open>
  Claim C10. The dash line of a matched failed test-case tag carries the value captured at
  the first occurrence of \<^verbatim>\<open>name="\<close> in the raw text of the tag, up to the next double quote:
  when the tag is \<open>pre\<close>, \<^verbatim>\<open>name="\<close>, \<open>v\<close>, a double quote and \<open>post\<close>, with no double quote
  in \<open>v\<close> and no occurrence of \<^verbatim>\<open>name="\<close> starting inside \<open>pre\<close>, the line is \<open>v\<close> after a
  dash, whatever \<open>pre\<close> ends with (so the value of \<^verbatim>\<open>fullname\<close> is listed when that attribute
  comes first). A tag with no substring of the form \<^verbatim>\<open>name="..."\<close> gives no line. When the
  results document is readable and has matched tags, the summary carries, after the header
  and totals lines, the heading \<^verbatim>\<open>Failed cases (N):\<close> with \<open>N\<close> the number of matched tags, with
  or without a line, and then the lines of the tags in document order; the failure detail,
  the footer and the later sections follow.
\<close>

theorem failed_case_name_is_first_name_pattern:
  \<open>(tag = pre @ js ''name="'' @ v @ [DQ] @ post \<and> DQ \<notin> set v
      \<and> index_of (js ''name="'') tag = Some (length pre)
    \<longrightarrow> name_line tag = js ''  - '' @ v @ js ''\<newline>'') \<and>
   ((\<nexists>pre v post. tag = pre @ js ''name="'' @ v @ [DQ] @ post)
    \<longrightarrow> name_line tag = []) \<and>
   (fs resultsPath = Inr xml \<and> match_all failed_case_re xml \<noteq> []
    \<longrightarrow> summarize toLowerCase fs resultsPath logPath pc =
          Inr (header_text xml @ totals_text xml
               @ js ''Failed cases ('' @ show_nat (length (match_all failed_case_re xml)) @ js ''):\<newline>''
               @ concat (map name_line (match_all failed_case_re xml))
               @ first_detail xml
               @ footer logPath (exit_code_of (code pc))
               @ stream_section (js ''stdout'') (stdoutBuf pc)
               @ stream_section (js ''stderr'') (stderrBuf pc)
               @ log_section toLowerCase fs logPath (exit_code_of (code pc)),
               exit_code_of (code pc)))\<close>
proof (intro conjI impI)
  assume \<open>tag = pre @ js ''name="'' @ v @ [DQ] @ post \<and> DQ \<notin> set v
      \<and> index_of (js ''name="'') tag = Some (length pre)\<close>
  then have "tag_name tag = Some v" using tag_name_first by blast
  then show "name_line tag = js ''  - '' @ v @ js ''\<newline>''"
    by (simp add: name_line_eq dash_line_def)
next
  assume \<open>\<nexists>pre v post. tag = pre @ js ''name="'' @ v @ [DQ] @ post\<close>
  from tag_name_None [OF this] show "name_line tag = []"
    by (simp add: name_line_eq dash_line_def)
next
  assume a: "fs resultsPath = Inr xml \<and> match_all failed_case_re xml \<noteq> []"
  then have r: "fs resultsPath = Inr xml" and n: "match_all failed_case_re xml \<noteq> []"
    by simp_all
  from n have f: "failed_cases_text xml =
      js ''Failed cases ('' @ show_nat (length (match_all failed_case_re xml)) @ js ''):\<newline>''
      @ concat (map name_line (match_all failed_case_re xml))"
    by (simp add: failed_cases_text_def Let_def)
  show "summarize toLowerCase fs resultsPath logPath pc =
          Inr (header_text xml @ totals_text xml
               @ js ''Failed cases ('' @ show_nat (length (match_all failed_case_re xml)) @ js ''):\<newline>''
               @ concat (map name_line (match_all failed_case_re xml))
               @ first_detail xml
               @ footer logPath (exit_code_of (code pc))
               @ stream_section (js ''stdout'') (stdoutBuf pc)
               @ stream_section (js ''stderr'') (stderrBuf pc)
               @ log_section toLowerCase fs logPath (exit_code_of (code pc)),
               exit_code_of (code pc))"
    unfolding summarize_readable [where fs = fs and resultsPath = resultsPath, OF r] f tail_section_eq by simp
qed

theorem failed_case_name_witness:
  \<open>name_line (js ''<test-case fullname="X.C" name="C" result="Failed">'') = js ''  - X.C\<newline>'' \<and>
   name_line (js ''<test-case result="Failed">'') = [] \<and>
   summarize (\<lambda>s. s)
     (\<lambda>p. if p = js ''results.xml''
          then Inr (js ''<test-case fullname="X.C" name="C" result="Failed"><test-case result="Failed">'')
          else Inl (JsError (js ''ENOENT'')))
     (js ''results.xml'') (js ''batch.log'') \<lparr>code = Some 0, stdoutBuf = [], stderrBuf = []\<rparr>
   = Inr (js ''Failed cases (2):\<newline>  - X.C\<newline>\<newline>Log: batch.log\<newline>Exit code: 0'', 0)\<close>
proof -
  let ?t1 = \<open>js ''<test-case fullname="X.C" name="C" result="Failed">''\<close>
  let ?t2 = \<open>js ''<test-case result="Failed">''\<close>
  let ?xml = \<open>js ''<test-case fullname="X.C" name="C" result="Failed"><test-case result="Failed">''\<close>
  let ?fs = \<open>\<lambda>p. if p = js ''results.xml'' then Inr ?xml else Inl (JsError (js ''ENOENT''))\<close>
  let ?pc = "\<lparr>code = Some 0, stdoutBuf = [], stderrBuf = []\<rparr> :: proc_close"
  have h1: \<open>?t1 = js ''<test-case full'' @ js ''name="'' @ js ''X.C'' @ [DQ]
                  @ js '' name="C" result="Failed">'' \<and> DQ \<notin> set (js ''X.C'')
            \<and> index_of (js ''name="'') ?t1 = Some (length (js ''<test-case full''))\<close>
    by code_simp
  have \<open>\<not> sublist (js ''name="'') ?t2\<close> by code_simp
  then have h2: \<open>\<nexists>pre v post. ?t2 = pre @ js ''name="'' @ v @ [DQ] @ post\<close>
    by (metis append.assoc sublist_appendI)
  have h3: "?fs (js ''results.xml'') = Inr ?xml \<and> match_all failed_case_re ?xml \<noteq> []"
    by code_simp
  have e: "header_text ?xml @ totals_text ?xml
               @ js ''Failed cases ('' @ show_nat (length (match_all failed_case_re ?xml)) @ js ''):\<newline>''
               @ concat (map name_line (match_all failed_case_re ?xml))
               @ first_detail ?xml
               @ footer (js ''batch.log'') (exit_code_of (code ?pc))
               @ stream_section (js ''stdout'') (stdoutBuf ?pc)
               @ stream_section (js ''stderr'') (stderrBuf ?pc)
               @ log_section (\<lambda>s. s) ?fs (js ''batch.log'') (exit_code_of (code ?pc))
        = js ''Failed cases (2):\<newline>  - X.C\<newline>\<newline>Log: batch.log\<newline>Exit code: 0''"
    by code_simp
  have c: "exit_code_of (code ?pc) = 0" by code_simp
  from failed_case_name_is_first_name_pattern
    [of ?t1 \<open>js ''<test-case full''\<close> \<open>js ''X.C''\<close> \<open>js '' name="C" result="Failed">''\<close>] h1
  have a: "name_line ?t1 = js ''  - '' @ js ''X.C'' @ js ''\<newline>''" by blast
  from failed_case_name_is_first_name_pattern [of ?t2] h2
  have b: "name_line ?t2 = []" by blast
  from failed_case_name_is_first_name_pattern
    [of _ _ _ _ ?fs \<open>js ''results.xml''\<close> ?xml \<open>\<lambda>s. s\<close> \<open>js ''batch.log''\<close> ?pc] h3
  have "summarize (\<lambda>s. s) ?fs (js ''results.xml'') (js ''batch.log'') ?pc =
          Inr (header_text ?xml @ totals_text ?xml
               @ js ''Failed cases ('' @ show_nat (length (match_all failed_case_re ?xml)) @ js ''):\<newline>''
               @ concat (map name_line (match_all failed_case_re ?xml))
               @ first_detail ?xml
               @ footer (js ''batch.log'') (exit_code_of (code ?pc))
               @ stream_section (js ''stdout'') (stdoutBuf ?pc)
               @ stream_section (js ''stderr'') (stderrBuf ?pc)
               @ log_section (\<lambda>s. s) ?fs (js ''batch.log'') (exit_code_of (code ?pc)),
               exit_code_of (code ?pc))"
    by blast
  note s = this [unfolded e]
  have j: \<open>js ''  - '' @ js ''X.C'' @ js ''\<newline>'' = js ''  - X.C\<newline>''\<close> by (simp add: js_def)
  from a b s show ?thesis unfolding j by (simp add: exit_code_of_def)
qed

section \<open>The list of the failed cases\<close>

lemma gap_fits: "fits (P (Except g) Star) t \<longleftrightarrow> g \<notin> set t"
  by (auto simp: fits_def list_all_iff)

lemma failed_case_re_shape:
  \<open>failed_case_re =
     lit (js ''<test-case'') @ (P (Except GT) Star # (lit (js ''result="Failed"'')
       @ (P (Except GT) Star # (lit [GT] @ []))))\<close>
  by (simp add: failed_case_re_def js_def)

lemma failed_case_re_fits:
  \<open>list_all2 fits failed_case_re ts \<longleftrightarrow>
     (\<exists>a b. ts = map (\<lambda>c. [c]) (js ''<test-case'') @ a # map (\<lambda>c. [c]) (js ''result="Failed"'')
                   @ [b, [GT]]
            \<and> GT \<notin> set a \<and> GT \<notin> set b)\<close>
proof -
  define A where \<open>A = js ''<test-case''\<close>
  define B where \<open>B = js ''result="Failed"''\<close>
  have e: "list_all2 fits (lit [GT] @ []) t \<longleftrightarrow> t = [[GT]]" for t
    unfolding list_all2_fits_lit by auto
  have "list_all2 fits (lit A @ (P (Except GT) Star # (lit B @ (P (Except GT) Star # (lit [GT] @ []))))) ts
        \<longleftrightarrow> (\<exists>a b. ts = map (\<lambda>c. [c]) A @ a # map (\<lambda>c. [c]) B @ [b, [GT]]
                   \<and> GT \<notin> set a \<and> GT \<notin> set b)"
    unfolding list_all2_fits_lit [of A] list_all2_fits_lit [of B] list_all2_Cons1 gap_fits e
    by auto
  then show ?thesis unfolding failed_case_re_shape A_def B_def .
qed

lemma takeWhile_until: "g \<notin> set x \<Longrightarrow> takeWhile (\<lambda>c. c \<noteq> g) (x @ g # rest) = x"
  by (induction x) auto

lemma result_no_gt: \<open>GT \<notin> set (js ''result="Failed"'')\<close>
  by code_simp

lemma failed_tag_at_tag:
  assumes "GT \<notin> set a" "GT \<notin> set b"
  shows \<open>failed_tag_at (js ''<test-case'' @ a @ js ''result="Failed"'' @ b @ GT # rest)
         = Some (js ''<test-case'' @ a @ js ''result="Failed"'' @ b @ [GT])\<close>
proof -
  let ?seg = \<open>a @ js ''result="Failed"'' @ b\<close>
  from assms result_no_gt have n: "GT \<notin> set ?seg" by simp
  have s: \<open>sublist (js ''result="Failed"'') ?seg\<close> by (rule sublist_appendI)
  have t: "takeWhile (\<lambda>c. c \<noteq> GT) (?seg @ GT # rest) = ?seg" by (rule takeWhile_until [OF n])
  have d: \<open>drop (length (js ''<test-case'')) (js ''<test-case'' @ a @ js ''result="Failed"'' @ b @ GT # rest)
          = ?seg @ GT # rest\<close> by simp
  show ?thesis unfolding failed_tag_at_def d Let_def t using s by simp
qed

lemma exec_at_failed_tag:
  "map_option matched (exec_at failed_case_re s) = failed_tag_at s"
proof (cases "exec_at failed_case_re s")
  case (Some m)
  from exec_at_Some [OF Some] obtain ts where ts: "matched m = concat ts"
    "s = matched m @ after m" "list_all2 fits failed_case_re ts" by blast
  from ts(3) obtain a b where
    ab: \<open>ts = map (\<lambda>c. [c]) (js ''<test-case'') @ a # map (\<lambda>c. [c]) (js ''result="Failed"'') @ [b, [GT]]\<close>
      "GT \<notin> set a" "GT \<notin> set b"
    unfolding failed_case_re_fits by blast
  have m: \<open>matched m = js ''<test-case'' @ a @ js ''result="Failed"'' @ b @ [GT]\<close>
    unfolding ts(1) ab(1) by (simp add: concat_singletons)
  have \<open>s = js ''<test-case'' @ a @ js ''result="Failed"'' @ b @ GT # after m\<close>
    by (subst ts(2)) (simp add: m)
  then have "failed_tag_at s = Some (matched m)"
    using failed_tag_at_tag [OF ab(2,3), of "after m"] m by simp
  with Some show ?thesis by simp
next
  case None
  have "failed_tag_at s = None"
  proof (cases "failed_tag_at s")
    case (Some t)
    define A where \<open>A = js ''<test-case''\<close>
    define B where \<open>B = js ''result="Failed"''\<close>
    define r where "r = drop (length A) s"
    define seg where "seg = takeWhile (\<lambda>c. c \<noteq> GT) r"
    define tl' where "tl' = dropWhile (\<lambda>c. c \<noteq> GT) r"
    from Some have p: "prefix A s" and l: "length seg < length r" and sub: "sublist B seg"
      unfolding failed_tag_at_def Let_def A_def B_def r_def seg_def by (auto split: if_splits)
    from p have s: "s = A @ r" unfolding r_def by (auto simp: prefix_def)
    have sr: "r = seg @ tl'" unfolding seg_def tl'_def by simp
    with l have "tl' \<noteq> []" by auto
    then obtain x rest where d: "tl' = x # rest" by (cases tl') auto
    have "\<not> (hd tl' \<noteq> GT)" using \<open>tl' \<noteq> []\<close> unfolding tl'_def by (rule hd_dropWhile)
    with d have x: "x = GT" by simp
    have r: "r = seg @ GT # rest" using sr d x by simp
    from sub obtain a b where ab: "seg = a @ B @ b" unfolding sublist_def by blast
    have "GT \<notin> set seg" unfolding seg_def by (auto dest: set_takeWhileD)
    then have g: "GT \<notin> set a" "GT \<notin> set b" unfolding ab by simp_all
    define ts where "ts = map (\<lambda>c. [c]) A @ a # map (\<lambda>c. [c]) B @ [b, [GT]]"
    from g have f: "list_all2 fits failed_case_re ts"
      unfolding failed_case_re_fits ts_def A_def B_def by blast
    have c: "concat ts = A @ a @ B @ b @ [GT]" unfolding ts_def by (simp add: concat_singletons)
    have "s = concat ts @ rest" unfolding c s r ab by simp
    with match_here_complete [OF f, of rest] have "match_here failed_case_re s \<noteq> None" by simp
    with None show ?thesis by (simp add: exec_at_None)
  qed simp
  with None show ?thesis by simp
qed

lemma match_all_failed_tags: "match_all failed_case_re xml = failed_tags xml"
  unfolding failed_tags_def by (rule match_all_units) (rule exec_at_failed_tag)

lemma dash_lines_listed:
  "concat (map dash_line tags)
   = concat (map (\<lambda>v. js ''  - '' @ v @ js ''\<newline>'') (List.map_filter tag_name tags))"
  by (induction tags) (simp_all add: dash_line_def List.map_filter_simps split: option.splits)

lemma failed_cases_text_eq: "failed_cases_text xml = failed_cases_section xml"
  by (simp add: failed_cases_text_def failed_cases_section_def Let_def match_all_failed_tags
        name_line_eq [abs_def] dash_lines_listed listed_names_def)

lemma map_filter_length_le: "length (List.map_filter f xs) \<le> length xs"
  by (induction xs) (simp_all add: List.map_filter_simps split: option.splits)

lemma map_filter_length_all:
  "list_all (\<lambda>x. f x \<noteq> None) xs \<Longrightarrow> length (List.map_filter f xs) = length xs"
  by (induction xs) (auto simp: List.map_filter_simps split: option.splits)

text \<open>
  Claim C3, as the code has it. Let the failed tags of a document be the texts found by a
  scan from left to right, each made of \<^verbatim>\<open><test-case\<close>, the characters up to the first \<^verbatim>\<open>></\<close>
  after it, with \<^verbatim>\<open>result="Failed"\<close> among them, and that \<^verbatim>\<open>></\<close>; and let the name of a tag be the
  text between its first \<^verbatim>\<open>name="\<close> and the next double quote. When the results document is
  readable, the summary is the header line and the totals line, then the failed-case
  section, then the failure detail, the footer and the later sections. The failed-case
  section is empty when the document has no failed tag, and otherwise is the heading
  \<^verbatim>\<open>Failed cases (N):\<close>, with \<open>N\<close> the number of failed tags, followed by one line with a dash
  for each failed tag that has a name, in document order. At most \<open>N\<close> names are listed,
  and exactly \<open>N\<close> when every failed tag has a name.
\<close>

theorem failed_cases_in_summary:
  "(fs resultsPath = Inr xml \<longrightarrow>
      summarize toLowerCase fs resultsPath logPath pc =
        Inr (header_text xml @ totals_text xml
             @ failed_cases_section xml
             @ first_detail xml
             @ footer logPath (exit_code_of (code pc))
             @ stream_section (js ''stdout'') (stdoutBuf pc)
             @ stream_section (js ''stderr'') (stderrBuf pc)
             @ log_section toLowerCase fs logPath (exit_code_of (code pc)),
             exit_code_of (code pc))) \<and>
   length (listed_names xml) \<le> length (failed_tags xml) \<and>
   (list_all (\<lambda>tag. tag_name tag \<noteq> None) (failed_tags xml)
    \<longrightarrow> length (listed_names xml) = length (failed_tags xml))"
proof (intro conjI impI)
  assume r: "fs resultsPath = Inr xml"
  show "summarize toLowerCase fs resultsPath logPath pc =
        Inr (header_text xml @ totals_text xml
             @ failed_cases_section xml
             @ first_detail xml
             @ footer logPath (exit_code_of (code pc))
             @ stream_section (js ''stdout'') (stdoutBuf pc)
             @ stream_section (js ''stderr'') (stderrBuf pc)
             @ log_section toLowerCase fs logPath (exit_code_of (code pc)),
             exit_code_of (code pc))"
    unfolding summarize_readable [where fs = fs and resultsPath = resultsPath, OF r]
      failed_cases_text_eq tail_section_eq by simp
next
  show "length (listed_names xml) \<le> length (failed_tags xml)"
    unfolding listed_names_def by (rule map_filter_length_le)
next
  assume "list_all (\<lambda>tag. tag_name tag \<noteq> None) (failed_tags xml)"
  then show "length (listed_names xml) = length (failed_tags xml)"
    unfolding listed_names_def by (rule map_filter_length_all)
qed

theorem failed_cases_in_summary_witness:
  \<open>summarize (\<lambda>s. s)
     (\<lambda>p. if p = js ''results.xml''
          then Inr (js ''<test-case name="A" result="Failed"/><test-case name="B" result="Passed"/><test-case id="7" name="C" result="Failed"/>'')
          else Inl (JsError (js ''ENOENT'')))
     (js ''results.xml'') (js ''batch.log'') \<lparr>code = Some 0, stdoutBuf = [], stderrBuf = []\<rparr>
   = Inr (js ''Failed cases (2):\<newline>  - A\<newline>  - C\<newline>\<newline>Log: batch.log\<newline>Exit code: 0'', 0) \<and>
   length (listed_names
     (js ''<test-case name="A" result="Failed"/><test-case name="B" result="Passed"/><test-case id="7" name="C" result="Failed"/>'')) = 2\<close>
proof -
  let ?xml = \<open>js ''<test-case name="A" result="Failed"/><test-case name="B" result="Passed"/><test-case id="7" name="C" result="Failed"/>''\<close>
  let ?fs = \<open>\<lambda>p. if p = js ''results.xml'' then Inr ?xml else Inl (JsError (js ''ENOENT''))\<close>
  let ?pc = "\<lparr>code = Some 0, stdoutBuf = [], stderrBuf = []\<rparr> :: proc_close"
  have h: "?fs (js ''results.xml'') = Inr ?xml" by simp
  have n: "list_all (\<lambda>tag. tag_name tag \<noteq> None) (failed_tags ?xml)" by code_simp
  have l: "length (failed_tags ?xml) = 2" by code_simp
  have e: "header_text ?xml @ totals_text ?xml
             @ failed_cases_section ?xml
             @ first_detail ?xml
             @ footer (js ''batch.log'') (exit_code_of (code ?pc))
             @ stream_section (js ''stdout'') (stdoutBuf ?pc)
             @ stream_section (js ''stderr'') (stderrBuf ?pc)
             @ log_section (\<lambda>s. s) ?fs (js ''batch.log'') (exit_code_of (code ?pc))
        = js ''Failed cases (2):\<newline>  - A\<newline>  - C\<newline>\<newline>Log: batch.log\<newline>Exit code: 0''"
    by code_simp
  from failed_cases_in_summary
    [of ?fs \<open>js ''results.xml''\<close> ?xml \<open>\<lambda>s. s\<close> \<open>js ''batch.log''\<close> ?pc] h
  have "summarize (\<lambda>s. s) ?fs (js ''results.xml'') (js ''batch.log'') ?pc =
        Inr (header_text ?xml @ totals_text ?xml
             @ failed_cases_section ?xml
             @ first_detail ?xml
             @ footer (js ''batch.log'') (exit_code_of (code ?pc))
             @ stream_section (js ''stdout'') (stdoutBuf ?pc)
             @ stream_section (js ''stderr'') (stderrBuf ?pc)
             @ log_section (\<lambda>s. s) ?fs (js ''batch.log'') (exit_code_of (code ?pc)),
             exit_code_of (code ?pc))"
    by blast
  note s = this [unfolded e]
  from failed_cases_in_summary
    [of ?fs \<open>js ''results.xml''\<close> ?xml \<open>\<lambda>s. s\<close> \<open>js ''batch.log''\<close> ?pc] n
  have "length (listed_names ?xml) = length (failed_tags ?xml)" by blast
  with l have c: "length (listed_names ?xml) = 2" by simp
  from s c show ?thesis by (simp add: exit_code_of_def)
qed

text \<open>
  The claim as first stated fails in three ways. A failed tag without a name is counted
  and no name is listed: one tag, no name. The tags are found by their text, not by their
  attributes: a tag whose only attribute of this kind is \<^verbatim>\<open>xresult="Failed"\<close> is listed under
  the heading, though no tag of the document has a result attribute equal to Failed. And
  with no failed tag in the document, a heading printed by the editor on its standard
  output still appears in the summary.
\<close>

theorem failed_cases_counterexample:
  \<open>failed_tags (js ''<test-case id="1" result="Failed"/>'') = [js ''<test-case id="1" result="Failed"/>''] \<and>
   listed_names (js ''<test-case id="1" result="Failed"/>'') = [] \<and>
   summarize (\<lambda>s. s)
     (\<lambda>p. if p = js ''results.xml'' then Inr (js ''<test-case id="1" result="Failed"/>'')
          else Inl (JsError (js ''ENOENT'')))
     (js ''results.xml'') (js ''batch.log'') \<lparr>code = Some 0, stdoutBuf = [], stderrBuf = []\<rparr>
   = Inr (js ''Failed cases (1):\<newline>\<newline>Log: batch.log\<newline>Exit code: 0'', 0) \<and>
   summarize (\<lambda>s. s)
     (\<lambda>p. if p = js ''results.xml'' then Inr (js ''<test-case name="A" xresult="Failed"/>'')
          else Inl (JsError (js ''ENOENT'')))
     (js ''results.xml'') (js ''batch.log'') \<lparr>code = Some 0, stdoutBuf = [], stderrBuf = []\<rparr>
   = Inr (js ''Failed cases (1):\<newline>  - A\<newline>\<newline>Log: batch.log\<newline>Exit code: 0'', 0) \<and>
   failed_tags (js ''<test-case name="A" result="Passed"/>'') = [] \<and>
   summarize (\<lambda>s. s)
     (\<lambda>p. if p = js ''results.xml'' then Inr (js ''<test-case name="A" result="Passed"/>'')
          else Inl (JsError (js ''ENOENT'')))
     (js ''results.xml'') (js ''batch.log'')
     \<lparr>code = Some 0, stdoutBuf = js ''Failed cases (3):'', stderrBuf = []\<rparr>
   = Inr (js ''\<newline>Log: batch.log\<newline>Exit code: 0\<newline>\<newline>[stdout tail]\<newline>Failed cases (3):'', 0)\<close>
  by code_simp


end
